theory Spec2Isabelle
  imports Main
begin

section \<open>Text\<close>

text \<open>
  Text is a list of characters (\<open>string\<close>); the characters are the code units
  0..255.  The three character tests below are the ones the regular expressions and
  \<open>trim\<close> of the source use, restricted to that range: \<open>\s\<close> and \<open>trim\<close>
  share the same set (tab, line feed, vertical tab, form feed, carriage return, space,
  no-break space).
\<close>

definition is_space :: "char \<Rightarrow> bool" where
  "is_space c \<longleftrightarrow>
     c \<in> set [CHR 0x09, CHR 0x0A, CHR 0x0B, CHR 0x0C, CHR 0x0D, CHR 0x20, CHR 0xA0]"

definition is_digit :: "char \<Rightarrow> bool" where
  "is_digit c \<longleftrightarrow> c \<in> set ''0123456789''"

definition is_capital :: "char \<Rightarrow> bool" where
  \<comment> \<open>the capitals among the code units 0..255: A-Z and the Latin-1 capitals\<close>
  "is_capital c \<longleftrightarrow>
     (let n = (of_char c :: nat)
      in (65 \<le> n \<and> n \<le> 90) \<or> (192 \<le> n \<and> n \<le> 222 \<and> n \<noteq> 215))"

definition to_lower :: "char \<Rightarrow> char" where
  \<comment> \<open>\<open>toLowerCase\<close> on one code unit: the small letter of a capital is 32 further,
     which is the capital with bit 5 set\<close>
  "to_lower c =
     (if is_capital c
      then (case c of Char b0 b1 b2 b3 b4 b5 b6 b7 \<Rightarrow> Char b0 b1 b2 b3 b4 True b6 b7)
      else c)"

lemma to_lower_capital: "of_char (to_lower c) = (of_char c :: nat) + 32" if "is_capital c"
proof (cases c)
  case (Char b0 b1 b2 b3 b4 b5 b6 b7)
  have "\<not> b5" using Char that
    by (cases b6; cases b7; cases b0; cases b1; cases b2; cases b3; cases b4)
       (auto simp: is_capital_def)
  with Char that show ?thesis by (simp add: to_lower_def)
qed

definition toLowerCase :: "string \<Rightarrow> string" where
  "toLowerCase s = map to_lower s"

definition trim :: "string \<Rightarrow> string" where
  "trim s = rev (dropWhile is_space (rev (dropWhile is_space s)))"

fun starts_with :: "string \<Rightarrow> string \<Rightarrow> bool" where
  "starts_with [] s = True"
| "starts_with (t # ts) [] = False"
| "starts_with (t # ts) (c # cs) = (t = c \<and> starts_with ts cs)"

fun includes_text :: "string \<Rightarrow> string \<Rightarrow> bool" where
  \<comment> \<open>\<open>s.includes(t)\<close>, written \<open>includes_text t s\<close>.\<close>
  "includes_text t [] = starts_with t []"
| "includes_text t (c # cs) = (starts_with t (c # cs) \<or> includes_text t cs)"


section \<open>Regular expressions\<close>

text \<open>
  The fragment of the regular expressions of the source: single characters and
  character classes, sequence, alternative, greedy and lazy repetition of a class,
  one capturing group, positive lookahead and the end-of-input assertion.  A matcher
  returns the list of all ways to match at the start of the input, in the order in
  which a backtracking matcher tries them; the head of the list is the match found.
  A state is the input still unread and the text of capture group 1.
\<close>

datatype cclass =
    Lit char          \<comment> \<open>the character itself\<close>
  | LitCI char        \<comment> \<open>a letter under the \<open>i\<close> flag\<close>
  | Space             \<comment> \<open>\<open>\s\<close>\<close>
  | Digit             \<comment> \<open>\<open>\d\<close>\<close>
  | NotNewline        \<comment> \<open>\<open>[^\n]\<close>\<close>
  | AnyChar           \<comment> \<open>\<open>[\s\S]\<close>, and \<open>.\<close> under the \<open>s\<close> flag\<close>

fun cmatch :: "cclass \<Rightarrow> char \<Rightarrow> bool" where
  "cmatch (Lit a) c = (c = a)"
| "cmatch (LitCI a) c = (to_lower c = to_lower a)"
| "cmatch Space c = is_space c"
| "cmatch Digit c = is_digit c"
| "cmatch NotNewline c = (c \<noteq> CHR 0x0A)"
| "cmatch AnyChar c = True"

datatype regex =
    Empty
  | Atom cclass
  | Cat regex regex
  | Alt regex regex
  | Star cclass         \<comment> \<open>\<open>x*\<close>\<close>
  | LazyStar cclass     \<comment> \<open>\<open>x*?\<close>\<close>
  | Group regex         \<comment> \<open>\<open>(r)\<close>, capture group 1\<close>
  | Lookahead regex     \<comment> \<open>\<open>(?=r)\<close>\<close>
  | EndOfInput          \<comment> \<open>\<open>$\<close> without the \<open>m\<close> flag\<close>

definition Plus :: "cclass \<Rightarrow> regex" where
  \<comment> \<open>\<open>x+\<close>\<close>
  "Plus c = Cat (Atom c) (Star c)"

definition LazyPlus :: "cclass \<Rightarrow> regex" where
  \<comment> \<open>\<open>x+?\<close>\<close>
  "LazyPlus c = Cat (Atom c) (LazyStar c)"

fun word :: "string \<Rightarrow> regex" where
  \<comment> \<open>a literal text, case-sensitive\<close>
  "word [] = Empty"
| "word (c # cs) = Cat (Atom (Lit c)) (word cs)"

fun word_ci :: "string \<Rightarrow> regex" where
  \<comment> \<open>a literal text under the \<open>i\<close> flag\<close>
  "word_ci [] = Empty"
| "word_ci (c # cs) = Cat (Atom (LitCI c)) (word_ci cs)"

type_synonym mstate = "string \<times> string option"

fun greedy :: "(char \<Rightarrow> bool) \<Rightarrow> string \<Rightarrow> string list" where
  \<comment> \<open>what is left after a repetition, longest repetition first\<close>
  "greedy p [] = [[]]"
| "greedy p (c # cs) = (if p c then greedy p cs @ [c # cs] else [c # cs])"

fun run :: "regex \<Rightarrow> mstate \<Rightarrow> mstate list" where
  "run Empty st = [st]"
| "run (Atom c) (s, g) =
     (case s of [] \<Rightarrow> [] | x # xs \<Rightarrow> if cmatch c x then [(xs, g)] else [])"
| "run (Cat a b) st = concat (map (run b) (run a st))"
| "run (Alt a b) st = run a st @ run b st"
| "run (Star c) (s, g) = map (\<lambda>r. (r, g)) (greedy (cmatch c) s)"
| "run (LazyStar c) (s, g) = map (\<lambda>r. (r, g)) (rev (greedy (cmatch c) s))"
| "run (Group a) (s, g) =
     map (\<lambda>(r, _). (r, Some (take (length s - length r) s))) (run a (s, g))"
| "run (Lookahead a) (s, g) =
     (case run a (s, g) of [] \<Rightarrow> [] | (_, g') # _ \<Rightarrow> [(s, g')])"
| "run EndOfInput (s, g) = (if s = [] then [(s, g)] else [])"

record rmatch =
  before :: string          \<comment> \<open>the input in front of the match\<close>
  matched :: string
  after :: string           \<comment> \<open>the input behind the match\<close>
  group1 :: "string option" \<comment> \<open>\<open>match[1]\<close>, \<open>None\<close> for \<open>undefined\<close>\<close>

fun search :: "regex \<Rightarrow> string \<Rightarrow> string \<Rightarrow> rmatch option" where
  \<comment> \<open>the leftmost match in \<open>s\<close>; \<open>pre\<close> is the input already passed over\<close>
  "search re pre [] =
     (case run re ([], None) of
        [] \<Rightarrow> None
      | (r, g) # _ \<Rightarrow> Some \<lparr>before = pre, matched = [], after = r, group1 = g\<rparr>)"
| "search re pre (c # cs) =
     (case run re (c # cs, None) of
        [] \<Rightarrow> search re (pre @ [c]) cs
      | (r, g) # _ \<Rightarrow>
          Some \<lparr>before = pre, matched = take (length (c # cs) - length r) (c # cs),
                after = r, group1 = g\<rparr>)"

definition match :: "string \<Rightarrow> regex \<Rightarrow> rmatch option" where
  \<comment> \<open>\<open>s.match(re)\<close> for a regular expression without the \<open>g\<close> flag\<close>
  "match s re = search re [] s"


lemma greedy_shorter: "r \<in> set (greedy p s) \<Longrightarrow> length r \<le> length s"
  by (induction s) (auto split: if_splits)

lemma run_shorter: "(r, g') \<in> set (run re (s, g)) \<Longrightarrow> length r \<le> length s"
proof (induction re arbitrary: s g r g')
  case (Cat a b)
  then obtain m h where "(m, h) \<in> set (run a (s, g))" "(r, g') \<in> set (run b (m, h))"
    by auto
  with Cat.IH show ?case by (meson le_trans)
next
  case (Group a)
  then show ?case by fastforce
qed (auto split: list.splits if_splits dest: greedy_shorter)

lemma search_shorter:
  "search re pre s = Some m \<Longrightarrow>
     length (after m) \<le> length s \<and> (matched m \<noteq> [] \<longrightarrow> length (after m) < length s)"
proof (induction s arbitrary: pre)
  case Nil
  then obtain r g xs where r: "run re ([], None) = (r, g) # xs" "after m = r"
    by (auto split: list.splits)
  then have "(r, g) \<in> set (run re ([], None))" by simp
  then have "length r \<le> length ([] :: string)" by (rule run_shorter)
  with r Nil show ?case by (auto split: list.splits)
next
  case (Cons c cs)
  show ?case
  proof (cases "run re (c # cs, None)")
    case Nil
    with Cons show ?thesis by fastforce
  next
    case (Cons x xs)
    obtain r g where x: "x = (r, g)" by (cases x)
    with Cons have "(r, g) \<in> set (run re (c # cs, None))" by simp
    then have "length r \<le> length (c # cs)" by (rule run_shorter)
    with Cons x Cons.prems show ?thesis by auto
  qed
qed

fun expand :: "string \<Rightarrow> string \<Rightarrow> string \<Rightarrow> string \<Rightarrow> string" where
  \<comment> \<open>the text a replacement string \<open>repl\<close> stands for at one match of a regular
     expression without capture groups: \<open>$$\<close>, \<open>$&\<close>, \<open>$`\<close> and \<open>$'\<close> are
     replaced, every other character stands for itself\<close>
  "expand [] m b a = []"
| "expand [c] m b a = [c]"
| "expand (c # d # r) m b a =
     (if c = CHR ''$'' \<and> d = CHR ''$'' then CHR ''$'' # expand r m b a
      else if c = CHR ''$'' \<and> d = CHR ''&'' then m @ expand r m b a
      else if c = CHR ''$'' \<and> d = CHR 0x60 then b @ expand r m b a
      else if c = CHR ''$'' \<and> d = CHR 0x27 then a @ expand r m b a
      else c # expand (d # r) m b a)"

definition replace_first :: "regex \<Rightarrow> string \<Rightarrow> string \<Rightarrow> string" where
  \<comment> \<open>\<open>s.replace(re, repl)\<close> for \<open>re\<close> without the \<open>g\<close> flag\<close>
  "replace_first re repl s =
     (case search re [] s of
        None \<Rightarrow> s
      | Some m \<Rightarrow> before m @ expand repl (matched m) (before m) (after m) @ after m)"

function replace_all :: "regex \<Rightarrow> string \<Rightarrow> string \<Rightarrow> string \<Rightarrow> string" where
  \<comment> \<open>\<open>s.replace(re, repl)\<close> for \<open>re\<close> with the \<open>g\<close> flag; \<open>pre\<close> is the
     input in front of \<open>s\<close>.  After an empty match the search goes on one character
     further.\<close>
  "replace_all re repl pre s =
     (case search re [] s of
        None \<Rightarrow> s
      | Some m \<Rightarrow>
          before m @ expand repl (matched m) (pre @ before m) (after m) @
          (if matched m = []
           then (case after m of
                   [] \<Rightarrow> []
                 | c # cs \<Rightarrow> c # replace_all re repl (pre @ before m @ [c]) cs)
           else replace_all re repl (pre @ before m @ matched m) (after m)))"
  by pat_completeness auto
termination
proof (relation "measure (\<lambda>(re, repl, pre, s). length s)")
  show "wf (measure (\<lambda>(re, repl, pre, s). length s))" by simp
next
  fix re and repl pre s :: string and m c cs
  assume "search re [] s = Some m" "after m = c # cs"
  then show "((re, repl, pre @ before m @ [c], cs), re, repl, pre, s)
               \<in> measure (\<lambda>(re, repl, pre, s). length s)"
    using search_shorter [of re "[]" s m] by simp
next
  fix re and repl pre s :: string and m
  assume "search re [] s = Some m" "matched m \<noteq> []"
  then show "((re, repl, pre @ before m @ matched m, after m), re, repl, pre, s)
               \<in> measure (\<lambda>(re, repl, pre, s). length s)"
    using search_shorter [of re "[]" s m] by simp
qed

function split_loop :: "regex \<Rightarrow> string \<Rightarrow> string \<Rightarrow> string option list" where
  \<comment> \<open>the loop of \<open>split\<close>: \<open>acc\<close> is the input from the end of the last separator
     to the position tried now, the third argument the input from that position.  A
     separator found there closes the piece \<open>acc\<close>, adds its capture group and moves
     on to its end, unless it is empty and \<open>acc\<close> is too.\<close>
  "split_loop re acc [] = [Some acc]"
| "split_loop re acc (c # cs) =
     (case run re (c # cs, None) of
        [] \<Rightarrow> split_loop re (acc @ [c]) cs
      | (r, g) # _ \<Rightarrow>
          if length r < length (c # cs) then Some acc # g # split_loop re [] r
          else if acc = [] then split_loop re (acc @ [c]) cs
          else Some acc # g # split_loop re [] (c # cs))"
  by pat_completeness auto
termination
proof (relation "measures [\<lambda>(re, acc, s). length s, \<lambda>(re, acc, s). length acc]")
qed auto

definition split :: "string \<Rightarrow> regex \<Rightarrow> string option list" where
  \<comment> \<open>\<open>s.split(re)\<close> for \<open>re\<close> with one capture group: the pieces between the
     separators, each separator's capture group between them\<close>
  "split s re =
     (if s = [] then (case run re ([], None) of [] \<Rightarrow> [Some []] | _ \<Rightarrow> [])
      else split_loop re [] s)"


section \<open>The slide content parser\<close>

text \<open>
  Numbers are integers or \<open>NaN\<close>.  The numbers of the source are doubles, which hold
  every integer up to \<open>2 ^ 53\<close> exactly; \<open>safe_integer\<close> marks that range.
\<close>

datatype js_number = Number int | NaN

fun safe_integer :: "js_number \<Rightarrow> bool" where
  "safe_integer (Number i) = (\<bar>i\<bar> \<le> 2 ^ 53)"
| "safe_integer NaN = False"

datatype error = TypeError

record slide_content =
  slideNumber :: js_number
  heading :: string
  explanation :: string

definition digit_value :: "char \<Rightarrow> nat" where
  "digit_value c = of_char c - 48"

definition decimal :: "string \<Rightarrow> nat" where
  "decimal ds = foldl (\<lambda>n c. 10 * n + digit_value c) 0 ds"

definition parseInt10 :: "string option \<Rightarrow> js_number" where
  \<comment> \<open>\<open>parseInt(x, 10)\<close>: leading white space and a sign are passed over, then the
     longest run of digits is read; \<open>NaN\<close> when there is none, as for \<open>undefined\<close>\<close>
  "parseInt10 x =
     (case x of
        None \<Rightarrow> NaN
      | Some s \<Rightarrow>
          (let t = dropWhile is_space s;
               neg = (t \<noteq> [] \<and> hd t = CHR ''-'');
               u = (if t \<noteq> [] \<and> (hd t = CHR ''-'' \<or> hd t = CHR ''+'') then tl t else t);
               ds = takeWhile is_digit u
           in if ds = [] then NaN
              else Number (if neg then - int (decimal ds) else int (decimal ds))))"

definition newline :: regex where
  "newline = Atom (Lit (CHR 0x0A))"

definition slide_marker :: regex where
  \<comment> \<open>\<open>/Slide\s+(\d+)/gi\<close>\<close>
  "slide_marker = Cat (word_ci ''Slide'') (Cat (Plus Space) (Group (Plus Digit)))"

definition headingPatterns :: "regex list" where
  \<comment> \<open>\<open>/Heading:\s*([^\n]+?)(?:\n\s*\n|Explanation:)/is\<close>,
     \<open>/Heading:\s*([^\n]+)/i\<close>,
     \<open>/Heading:\s*(.+?)(?:\n|$)/is\<close>\<close>
  "headingPatterns =
     [Cat (word_ci ''Heading:'') (Cat (Star Space) (Cat (Group (LazyPlus NotNewline))
        (Alt (Cat newline (Cat (Star Space) newline)) (word_ci ''Explanation:'')))),
      Cat (word_ci ''Heading:'') (Cat (Star Space) (Group (Plus NotNewline))),
      Cat (word_ci ''Heading:'') (Cat (Star Space) (Cat (Group (LazyPlus AnyChar))
        (Alt newline EndOfInput)))]"

definition explanationPatterns :: "regex list" where
  \<comment> \<open>\<open>/Explanation:\s*([\s\S]+?)(?=\n\s*Slide\s+\d+|$)/i\<close>,
     \<open>/Explanation:\s*([\s\S]+?)(?=\n\s*\n\s*Slide|$)/i\<close>,
     \<open>/Explanation:\s*([\s\S]+)/i\<close>\<close>
  "explanationPatterns =
     [Cat (word_ci ''Explanation:'') (Cat (Star Space) (Cat (Group (LazyPlus AnyChar))
        (Lookahead (Alt
           (Cat newline (Cat (Star Space) (Cat (word_ci ''Slide'')
              (Cat (Plus Space) (Plus Digit)))))
           EndOfInput)))),
      Cat (word_ci ''Explanation:'') (Cat (Star Space) (Cat (Group (LazyPlus AnyChar))
        (Lookahead (Alt
           (Cat newline (Cat (Star Space) (Cat newline (Cat (Star Space)
              (word_ci ''Slide'')))))
           EndOfInput)))),
      Cat (word_ci ''Explanation:'') (Cat (Star Space) (Group (Plus AnyChar)))]"

definition trailing_slide :: regex where
  \<comment> \<open>\<open>/\n\s*\n\s*Slide.*$/is\<close>\<close>
  "trailing_slide =
     Cat newline (Cat (Star Space) (Cat newline (Cat (Star Space)
       (Cat (word_ci ''Slide'') (Cat (Star AnyChar) EndOfInput)))))"

definition strip_emphasis :: "string \<Rightarrow> string" where
  \<comment> \<open>\<open>x.replace(/\*\*/g, "").replace(/__/g, "")\<close>\<close>
  "strip_emphasis x = replace_all (word ''__'') [] [] (replace_all (word ''**'') [] [] x)"

fun extract_heading :: "regex list \<Rightarrow> string \<Rightarrow> error + string" where
  \<comment> \<open>the loop over \<open>headingPatterns\<close>: the first pattern that matches gives the
     heading; \<open>match[1].trim()\<close> raises when the group is undefined\<close>
  "extract_heading [] content = Inr []"
| "extract_heading (pattern # patterns) content =
     (case match content pattern of
        None \<Rightarrow> extract_heading patterns content
      | Some m \<Rightarrow>
          (case group1 m of
             None \<Rightarrow> Inl TypeError
           | Some t \<Rightarrow> Inr (strip_emphasis (trim t))))"

fun extract_explanation :: "string \<Rightarrow> regex list \<Rightarrow> string \<Rightarrow> error + string" where
  \<comment> \<open>the loop over \<open>explanationPatterns\<close>; the first argument is the variable
     \<open>explanation\<close>.  A pattern that matches assigns it; the loop ends only when the
     assigned text is not empty.\<close>
  "extract_explanation cur [] content = Inr cur"
| "extract_explanation cur (pattern # patterns) content =
     (case match content pattern of
        None \<Rightarrow> extract_explanation cur patterns content
      | Some m \<Rightarrow>
          (case group1 m of
             None \<Rightarrow> Inl TypeError
           | Some t \<Rightarrow>
               (let e = strip_emphasis (trim (replace_first trailing_slide [] (trim t)))
                in if e \<noteq> [] then Inr e else extract_explanation e patterns content)))"

definition or_empty :: "string option \<Rightarrow> string" where
  \<comment> \<open>\<open>x || ""\<close>\<close>
  "or_empty x = (case x of None \<Rightarrow> [] | Some t \<Rightarrow> t)"

definition slide_block :: "string option \<Rightarrow> string \<Rightarrow> error + slide_content list" where
  \<comment> \<open>one round of the loop of \<open>parseSlideContent\<close>: the records it pushes\<close>
  "slide_block num content =
     (let slideNum = parseInt10 num
      in case extract_heading headingPatterns content of
           Inl e \<Rightarrow> Inl e
         | Inr h \<Rightarrow>
             (case extract_explanation [] explanationPatterns content of
                Inl e \<Rightarrow> Inl e
              | Inr ex \<Rightarrow>
                  Inr (if h \<noteq> [] \<and> ex \<noteq> []
                       then [\<lparr>slideNumber = slideNum, heading = h, explanation = ex\<rparr>]
                       else [])))"

fun slide_loop :: "string option list \<Rightarrow> error + slide_content list" where
  \<comment> \<open>the loop \<open>for (let i = 1; i < slideMatches.length; i += 2)\<close> over the list from
     index 1 on: \<open>slideMatches[i]\<close> and \<open>slideMatches[i + 1] || ""\<close>\<close>
  "slide_loop [] = Inr []"
| "slide_loop [num] =
     (case slide_block num [] of Inl e \<Rightarrow> Inl e | Inr new \<Rightarrow> Inr new)"
| "slide_loop (num # content # rest) =
     (case slide_block num (or_empty content) of
        Inl e \<Rightarrow> Inl e
      | Inr new \<Rightarrow>
          (case slide_loop rest of Inl e \<Rightarrow> Inl e | Inr slides \<Rightarrow> Inr (new @ slides)))"

definition parseSlideContent :: "string \<Rightarrow> error + slide_content list" where
  "parseSlideContent text = slide_loop (drop 1 (split text slide_marker))"


section \<open>Prompt templating\<close>

definition substitute :: "string \<Rightarrow> string \<Rightarrow> string \<Rightarrow> string" where
  \<comment> \<open>\<open>prompt.replace(/\{heading\}/g, heading).replace(/\{explanation\}/g, explanation)\<close>\<close>
  "substitute prompt h e =
     replace_all (word ''{explanation}'') e [] (replace_all (word ''{heading}'') h [] prompt)"

definition substitute_transcript :: "string \<Rightarrow> string \<Rightarrow> string" where
  \<comment> \<open>\<open>prompt.replace(/\{transcript\}/g, transcript)\<close>\<close>
  "substitute_transcript prompt transcript =
     replace_all (word ''{transcript}'') transcript [] prompt"

definition image_instruction_guard :: "string \<Rightarrow> string" where
  "image_instruction_guard finalPrompt =
     (if \<not> includes_text ''generate'' (toLowerCase finalPrompt) \<and>
         \<not> includes_text ''create'' (toLowerCase finalPrompt) \<and>
         \<not> includes_text ''image'' (toLowerCase finalPrompt)
      then ''Generate an image: '' @ finalPrompt
      else finalPrompt)"

definition falsy :: "string option \<Rightarrow> bool" where
  \<comment> \<open>\<open>!x\<close> for a text that may be missing\<close>
  "falsy x = (case x of None \<Rightarrow> True | Some t \<Rightarrow> t = [])"

definition blank_prompt :: "string option \<Rightarrow> bool" where
  \<comment> \<open>\<open>!prompt || prompt.trim() === ""\<close>\<close>
  "blank_prompt prompt = (falsy prompt \<or> trim (or_empty prompt) = [])"


section \<open>The generation service and the file system\<close>

text \<open>
  The generation service, the clock and the disk are outside the program.  What they
  answer is given by an environment: the answer of the \<open>k\<close>-th generation call to a
  prompt, the \<open>k\<close>-th reading of the clock in milliseconds, and whether the \<open>k\<close>-th
  write succeeds; the environment also holds the directory above the program,
  \<open>path.join(__dirname, "..")\<close>, as the list of its segments.  A world records what the
  program has done so far: the prompts sent, the number of clock readings and writes,
  and the files under their absolute paths.  A file that is there may still be
  unreadable (a directory, a file without permission).  Paths are joined and normalised
  as \<open>path.join\<close> does where \<open>/\<close> separates the segments.  File contents are the
  payload text as received.  The slide number of a request is an integer or \<open>NaN\<close>,
  as the parser gives it; the statements about file names ask for a safe integer,
  which a template literal prints in plain decimal digits.
\<close>

datatype 'a outcome =
    Returns 'a
  | Throws "string option"  \<comment> \<open>the message of an \<open>Error\<close>, \<open>None\<close> for any other value\<close>

record blob =
  mimeType :: "string option"
  data :: "string option"

record part =
  thought :: bool
  inlineData :: "blob option"
  part_text :: "string option"

record candidate =
  parts :: "part list option"   \<comment> \<open>\<open>candidate.content?.parts\<close>\<close>

record usage =
  promptTokenCount :: "nat option"
  candidatesTokenCount :: "nat option"
  totalTokenCount :: "nat option"

record response =
  response_text :: "string option"
  candidates :: "candidate list option"
  usageMetadata :: "usage option"
  stringified :: string         \<comment> \<open>\<open>JSON.stringify(response)\<close>\<close>

datatype disk_file = Readable string | Unreadable "string option"

record env =
  ai_generateContent :: "nat \<Rightarrow> string \<Rightarrow> response outcome"
  date_now :: "nat \<Rightarrow> nat"
  fs_write :: "nat \<Rightarrow> unit outcome"
  project_dir :: "string list"   \<comment> \<open>the segments of \<open>path.join(__dirname, "..")\<close>\<close>

record world =
  sent :: "string list"               \<comment> \<open>the prompts of the generation calls made\<close>
  clock_reads :: nat
  writes :: nat
  files :: "string \<rightharpoonup> disk_file"

datatype tokens = Tokens nat nat nat  \<comment> \<open>input, output, total\<close>

datatype status = completed | failed

record generation_result =
  result_slideNumber :: js_number
  imageUrl :: "string option"
  status :: status
  result_tokens :: "tokens option"
  result_error :: "string option"

datatype body =
    ErrorBody string "string option"          \<comment> \<open>\<open>error\<close> and \<open>message\<close>\<close>
  | ContentBody "slide_content list" string   \<comment> \<open>\<open>slides\<close> and \<open>rawResponse\<close>\<close>
  | FirstImageBody string js_number tokens    \<comment> \<open>\<open>imageUrl\<close>, \<open>slideNumber\<close>, \<open>tokens\<close>\<close>
  | RemainingBody "generation_result list"    \<comment> \<open>\<open>results\<close>\<close>

datatype reply = Reply nat body               \<comment> \<open>the status code and the JSON body\<close>

definition message_of :: "string option \<Rightarrow> string" where
  \<comment> \<open>\<open>error instanceof Error ? error.message : "Unknown error"\<close>\<close>
  "message_of e = (case e of Some m \<Rightarrow> m | None \<Rightarrow> ''Unknown error'')"

definition count_or_zero :: "nat option \<Rightarrow> nat" where
  \<comment> \<open>\<open>x || 0\<close>\<close>
  "count_or_zero x = (case x of None \<Rightarrow> 0 | Some n \<Rightarrow> n)"

definition tokens_of :: "response \<Rightarrow> tokens" where
  "tokens_of r =
     (case usageMetadata r of
        None \<Rightarrow> Tokens 0 0 0
      | Some u \<Rightarrow> Tokens (count_or_zero (promptTokenCount u))
                        (count_or_zero (candidatesTokenCount u))
                        (count_or_zero (totalTokenCount u)))"

fun find_image :: "part list \<Rightarrow> string option" where
  \<comment> \<open>the loop over the parts: the data of the first part that is not a thought and
     carries non-empty inline data of an image type\<close>
  "find_image [] = None"
| "find_image (p # ps) =
     (if thought p then find_image ps
      else (case inlineData p of
              None \<Rightarrow> find_image ps
            | Some b \<Rightarrow>
                (case (mimeType b, data b) of
                   (Some mt, Some d) \<Rightarrow>
                     if includes_text ''image'' mt \<and> d \<noteq> [] then Some d else find_image ps
                 | _ \<Rightarrow> find_image ps)))"

fun show_nat :: "nat \<Rightarrow> string" where
  "show_nat n =
     (if n < 10 then [''0123456789'' ! n]
      else show_nat (n div 10) @ [''0123456789'' ! (n mod 10)])"

declare show_nat.simps [simp del]

fun show_number :: "js_number \<Rightarrow> string" where
  \<comment> \<open>a number inside a template literal\<close>
  "show_number NaN = ''NaN''"
| "show_number (Number i) = (if i < 0 then CHR ''-'' # show_nat (nat (- i)) else show_nat (nat i))"

definition image_filename :: "js_number \<Rightarrow> nat \<Rightarrow> string" where
  \<comment> \<open>\<open>`test-slide-${slideNumber}-${timestamp}.png`\<close>\<close>
  "image_filename n timestamp =
     ''test-slide-'' @ show_number n @ ''-'' @ show_nat timestamp @ ''.png''"

fun segments :: "string \<Rightarrow> string \<Rightarrow> string list" where
  \<comment> \<open>the segments of a path, cut at every \<open>/\<close>; the first argument is the segment
     read so far\<close>
  "segments seg [] = [seg]"
| "segments seg (c # cs) =
     (if c = CHR ''/'' then seg # segments [] cs else segments (seg @ [c]) cs)"

fun resolve :: "string list \<Rightarrow> string list \<Rightarrow> string list" where
  \<comment> \<open>normalising an absolute path: the first argument is the directory reached, its
     last segment first.  Empty segments and \<open>.\<close> are passed over, \<open>..\<close> goes one
     directory up and stays at the root.\<close>
  "resolve dir [] = rev dir"
| "resolve dir (x # xs) =
     (if x = [] \<or> x = ''.'' then resolve dir xs
      else if x = ''..'' then resolve (case dir of [] \<Rightarrow> [] | _ # up \<Rightarrow> up) xs
      else resolve (x # dir) xs)"

definition absolute :: "string list \<Rightarrow> string" where
  \<comment> \<open>the absolute path of a list of segments; the root is \<open>/\<close>\<close>
  "absolute segs = (if segs = [] then ''/'' else concat (map (\<lambda>x. CHR ''/'' # x) segs))"

definition join_below :: "string list \<Rightarrow> string \<Rightarrow> string" where
  \<comment> \<open>\<open>path.join(dir, x)\<close> for a normalised absolute directory \<open>dir\<close>: a slash at the
     end of \<open>x\<close> is kept, unless the path is the root\<close>
  "join_below dir x =
     (let segs = resolve (rev dir) (segments [] x)
      in if segs \<noteq> [] \<and> x \<noteq> [] \<and> last x = CHR ''/'' then absolute segs @ ''/''
         else absolute segs)"

definition uploadsDir :: "env \<Rightarrow> string" where
  \<comment> \<open>\<open>path.join(__dirname, "..", "uploads", "carousel")\<close>\<close>
  "uploadsDir en = absolute (project_dir en @ [''uploads'', ''carousel''])"

definition image_path :: "env \<Rightarrow> string \<Rightarrow> string" where
  \<comment> \<open>\<open>path.join(uploadsDir, filename)\<close>\<close>
  "image_path en filename = join_below (project_dir en @ [''uploads'', ''carousel'']) filename"

definition image_url :: "string \<Rightarrow> string" where
  \<comment> \<open>\<open>`/uploads/carousel/${filename}`\<close>\<close>
  "image_url filename = ''/uploads/carousel/'' @ filename"

definition call_generate :: "env \<Rightarrow> world \<Rightarrow> string \<Rightarrow> response outcome \<times> world" where
  \<comment> \<open>one call of \<open>ai.models.generateContent\<close>\<close>
  "call_generate en w p =
     (ai_generateContent en (length (sent w)) p, w\<lparr>sent := sent w @ [p]\<rparr>)"

definition save_image ::
  "env \<Rightarrow> world \<Rightarrow> js_number \<Rightarrow> string \<Rightarrow> (string option + string) \<times> world" where
  \<comment> \<open>reads the clock, names the file and writes it; gives the URL of the image, or
     what the write has thrown\<close>
  "save_image en w n d =
     (let timestamp = date_now en (clock_reads w);
          filename = image_filename n timestamp;
          w1 = w\<lparr>clock_reads := Suc (clock_reads w), writes := Suc (writes w)\<rparr>
      in case fs_write en (writes w) of
           Throws e \<Rightarrow> (Inl e, w1)
         | Returns _ \<Rightarrow>
             (Inr (image_url filename),
              w1\<lparr>files := (files w1)(image_path en filename \<mapsto> Readable d)\<rparr>))"


section \<open>The three stages\<close>



definition first_image_attempt ::
  "env \<Rightarrow> world \<Rightarrow> string option \<Rightarrow> string \<Rightarrow> string \<Rightarrow> js_number
     \<Rightarrow> (string option + string \<times> tokens) \<times> world" where
  \<comment> \<open>Stage B inside its \<open>try\<close>, after the check of heading and explanation: the URL
     and the token counts, or what was thrown\<close>
  "first_image_attempt en w prompt h e n =
     (if blank_prompt prompt
      then (Inl (Some
        ''Prompt is required. Please provide a prompt in the first image prompt box.''), w)
      else
        (let finalPrompt = image_instruction_guard (substitute (or_empty prompt) h e)
         in case call_generate en w finalPrompt of
              (Throws err, w1) \<Rightarrow> (Inl err, w1)
            | (Returns r, w1) \<Rightarrow>
                (case candidates r of
                   None \<Rightarrow> (Inl (Some ''No candidates in response''), w1)
                 | Some [] \<Rightarrow> (Inl (Some ''No candidates in response''), w1)
                 | Some (c # _) \<Rightarrow>
                     (case parts c of
                        None \<Rightarrow> (Inl (Some ''No content parts in response''), w1)
                      | Some ps \<Rightarrow>
                          (case find_image ps of
                             None \<Rightarrow> (Inl (Some ''No image data found in response''), w1)
                           | Some d \<Rightarrow>
                               (case save_image en w1 n d of
                                  (Inl err, w2) \<Rightarrow> (Inl err, w2)
                                | (Inr url, w2) \<Rightarrow> (Inr (url, tokens_of r), w2)))))))"

definition generate_first_image ::
  "env \<Rightarrow> world \<Rightarrow> string option \<Rightarrow> string option \<Rightarrow> string option \<Rightarrow> js_number
     \<Rightarrow> reply \<times> world" where
  \<comment> \<open>\<open>POST /api/generate-first-image\<close>\<close>
  "generate_first_image en w prompt h e n =
     (if falsy h \<or> falsy e
      then (Reply 400 (ErrorBody ''Heading and explanation are required'' None), w)
      else (case first_image_attempt en w prompt (or_empty h) (or_empty e) n of
              (Inl err, w1) \<Rightarrow>
                (Reply 500 (ErrorBody ''Failed to generate first image''
                   (Some (message_of err))), w1)
            | (Inr (url, t), w1) \<Rightarrow> (Reply 200 (FirstImageBody url n t), w1)))"

definition slide_attempt ::
  "env \<Rightarrow> world \<Rightarrow> string option \<Rightarrow> slide_content
     \<Rightarrow> (string option + string \<times> tokens) \<times> world" where
  \<comment> \<open>Stage C, the \<open>try\<close> block of one slide: the URL and the token counts, or what
     was thrown\<close>
  "slide_attempt en w prompt slide =
     (if blank_prompt prompt
      then (Inl (Some
        ''Prompt is required. Please provide a prompt in the remaining images prompt box.''), w)
      else
        (let finalPrompt = image_instruction_guard
               (substitute (or_empty prompt) (heading slide) (explanation slide))
         in case call_generate en w finalPrompt of
              (Throws err, w1) \<Rightarrow> (Inl err, w1)
            | (Returns r, w1) \<Rightarrow>
                (case candidates r of
                   None \<Rightarrow> (Inl (Some ''No candidates in response''), w1)
                 | Some [] \<Rightarrow> (Inl (Some ''No candidates in response''), w1)
                 | Some (c # _) \<Rightarrow>
                     (case find_image (case parts c of None \<Rightarrow> [] | Some ps \<Rightarrow> ps) of
                        None \<Rightarrow> (Inl (Some ''No image data found''), w1)
                      | Some d \<Rightarrow>
                          (case save_image en w1 (slideNumber slide) d of
                             (Inl err, w2) \<Rightarrow> (Inl err, w2)
                           | (Inr url, w2) \<Rightarrow> (Inr (url, tokens_of r), w2))))))"

definition slide_result ::
  "env \<Rightarrow> world \<Rightarrow> string option \<Rightarrow> slide_content \<Rightarrow> generation_result \<times> world" where
  \<comment> \<open>Stage C, one round of the loop: the \<open>try\<close> block and its \<open>catch\<close>\<close>
  "slide_result en w prompt slide =
     (case slide_attempt en w prompt slide of
        (Inl err, w1) \<Rightarrow>
          (\<lparr>result_slideNumber = slideNumber slide, imageUrl = None, status = failed,
            result_tokens = None, result_error = Some (message_of err)\<rparr>, w1)
      | (Inr (url, t), w1) \<Rightarrow>
          (\<lparr>result_slideNumber = slideNumber slide, imageUrl = Some url, status = completed,
            result_tokens = Some t, result_error = None\<rparr>, w1))"

fun slides_loop ::
  "env \<Rightarrow> world \<Rightarrow> string option \<Rightarrow> slide_content list \<Rightarrow> generation_result list \<times> world"
  where
  \<comment> \<open>\<open>for (const slide of slides)\<close>\<close>
  "slides_loop en w prompt [] = ([], w)"
| "slides_loop en w prompt (slide # rest) =
     (case slide_result en w prompt slide of
        (r, w1) \<Rightarrow> (case slides_loop en w1 prompt rest of (rs, w2) \<Rightarrow> (r # rs, w2)))"

definition reference_path :: "env \<Rightarrow> string \<Rightarrow> string" where
  \<comment> \<open>\<open>path.join(__dirname, "..", firstImageUrl.replace(/^\//, ""))\<close>: the URL
     without one leading slash, below the directory above the program\<close>
  "reference_path en url =
     join_below (project_dir en)
       (case url of [] \<Rightarrow> [] | c # cs \<Rightarrow> if c = CHR ''/'' then cs else c # cs)"

definition generate_remaining_images ::
  "env \<Rightarrow> world \<Rightarrow> string option \<Rightarrow> slide_content list option \<Rightarrow> string option
     \<Rightarrow> reply \<times> world" where
  \<comment> \<open>\<open>POST /api/generate-remaining-images\<close>\<close>
  "generate_remaining_images en w prompt slides firstImageUrl =
     (case slides of
        None \<Rightarrow> (Reply 400 (ErrorBody ''Slides are required'' None), w)
      | Some [] \<Rightarrow> (Reply 400 (ErrorBody ''Slides are required'' None), w)
      | Some (s # ss) \<Rightarrow>
          if falsy firstImageUrl
          then (Reply 400 (ErrorBody ''First image URL is required'' None), w)
          else (case files w (reference_path en (or_empty firstImageUrl)) of
                  None \<Rightarrow> (Reply 400 (ErrorBody ''Reference image not found'' None), w)
                | Some (Unreadable err) \<Rightarrow>
                    (Reply 500 (ErrorBody ''Failed to generate remaining images''
                       (Some (message_of err))), w)
                | Some (Readable _) \<Rightarrow>
                    (case slides_loop en w prompt (s # ss) of
                       (results, w1) \<Rightarrow> (Reply 200 (RemainingBody results), w1))))"


section \<open>Occurrences of a text, for the statements\<close>

fun starts_with_ci :: "string \<Rightarrow> string \<Rightarrow> bool" where
  \<comment> \<open>\<open>s\<close> begins with \<open>t\<close>, letters compared without their case\<close>
  "starts_with_ci [] s = True"
| "starts_with_ci (t # ts) [] = False"
| "starts_with_ci (t # ts) (c # cs) = (to_lower c = to_lower t \<and> starts_with_ci ts cs)"

fun appears_ci :: "string \<Rightarrow> string \<Rightarrow> bool" where
  \<comment> \<open>\<open>t\<close> occurs somewhere in \<open>s\<close>, letters compared without their case\<close>
  "appears_ci t [] = starts_with_ci t []"
| "appears_ci t (c # cs) = (starts_with_ci t (c # cs) \<or> appears_ci t cs)"

lemma starts_with_lower:
  "starts_with (map to_lower t) (map to_lower s) = starts_with_ci t s"
  by (induction t s rule: starts_with_ci.induct) auto

lemma includes_lower:
  "includes_text (map to_lower t) (toLowerCase s) = appears_ci t s"
proof (induction s)
  case Nil
  show ?case using starts_with_lower [of t "[]"] by (simp add: toLowerCase_def)
next
  case (Cons c cs)
  show ?case using starts_with_lower [of t "c # cs"] Cons by (simp add: toLowerCase_def)
qed


section \<open>The image-instruction guard\<close>

lemma lower_tokens:
  "map to_lower ''generate'' = ''generate''"
  "map to_lower ''create'' = ''create''"
  "map to_lower ''image'' = ''image''"
  by (simp_all add: to_lower_def is_capital_def)

text \<open>
  C3, as the code has it.  The guard puts \<open>Generate an image: \<close> in front of a prompt
  exactly when none of the words generate, create and image occurs in it, whatever the
  case of their letters, and leaves every other prompt as it is.  Neither of the two
  example prompts has one of the words: \<open>Draw a blue circle\<close> becomes
  \<open>Generate an image: Draw a blue circle\<close>, and \<open>A red square\<close> becomes
  \<open>Generate an image: A red square\<close>.
\<close>

theorem guard_prepends_unless_token:
  "image_instruction_guard p =
     (if appears_ci ''generate'' p \<or> appears_ci ''create'' p \<or> appears_ci ''image'' p
      then p else ''Generate an image: '' @ p)
   \<and> image_instruction_guard ''Draw a blue circle'' = ''Generate an image: Draw a blue circle''
   \<and> image_instruction_guard ''A red square'' = ''Generate an image: A red square''"
proof -
  have g: "\<And>q. image_instruction_guard q =
     (if appears_ci ''generate'' q \<or> appears_ci ''create'' q \<or> appears_ci ''image'' q
      then q else ''Generate an image: '' @ q)"
    using includes_lower [of "''generate''"] includes_lower [of "''create''"]
      includes_lower [of "''image''"]
    by (simp only: lower_tokens image_instruction_guard_def) simp
  have a: "image_instruction_guard ''Draw a blue circle'' =
      ''Generate an image: Draw a blue circle''"
    by (simp add: g to_lower_def is_capital_def)
  have b: "image_instruction_guard ''A red square'' = ''Generate an image: A red square''"
    by (simp add: g to_lower_def is_capital_def)
  from g a b show ?thesis by blast
qed

theorem guard_prepends_unless_token_witness:
  "image_instruction_guard ''Create art'' = ''Create art''"
  using guard_prepends_unless_token [of "''Create art''"]
  by (simp add: to_lower_def is_capital_def)

text \<open>
  C3 as the specification words it has \<open>Draw a blue circle\<close> left unchanged; the guard
  changes it.
\<close>

theorem guard_draw_counterexample:
  "image_instruction_guard ''Draw a blue circle'' \<noteq> ''Draw a blue circle''"
  by (simp add: image_instruction_guard_def toLowerCase_def to_lower_def is_capital_def)


section \<open>Replacing a literal token\<close>

declare replace_all.simps [simp del]

fun replace_token :: "string \<Rightarrow> string \<Rightarrow> string \<Rightarrow> string" where
  \<comment> \<open>for the statements: the text \<open>s\<close> with every occurrence of the token \<open>t\<close>,
     found from left to right and not overlapping, replaced by exactly \<open>v\<close>\<close>
  "replace_token t v [] = []"
| "replace_token t v (c # cs) =
     (if starts_with t (c # cs) then v @ replace_token t v (drop (length t - 1) cs)
      else c # replace_token t v cs)"

lemma run_word: "run (word t) (s, g) = (if starts_with t s then [(drop (length t) s, g)] else [])"
proof (induction t s rule: starts_with.induct)
  case (3 t ts c cs)
  then show ?case by (cases "t = c") auto
qed auto

lemma run_word_ci:
  "run (word_ci t) (s, g) = (if starts_with_ci t s then [(drop (length t) s, g)] else [])"
proof (induction t s rule: starts_with_ci.induct)
  case (3 t ts c cs)
  then show ?case by (cases "to_lower c = to_lower t") auto
qed auto

declare word.simps [simp del] word_ci.simps [simp del]

lemma starts_with_append: "starts_with t s \<Longrightarrow> s = t @ drop (length t) s"
  by (induction t s rule: starts_with.induct) auto

lemma search_word_None_iff:
  "search (word t) pre s = None \<longleftrightarrow> \<not> includes_text t s"
  by (induction s arbitrary: pre) (auto simp: run_word)

lemma replace_all_no_match: "search re [] s = None \<Longrightarrow> replace_all re repl pre s = s"
  by (simp add: replace_all.simps)

lemma replace_all_absent: "\<not> includes_text t s \<Longrightarrow> replace_all (word t) v pre s = s"
  by (simp add: replace_all_no_match search_word_None_iff)

lemma expand_plain: "CHR ''$'' \<notin> set v \<Longrightarrow> expand v m b a = v"
  by (induction v m b a rule: expand.induct) auto

lemma replace_token_no_match: "t \<noteq> [] \<Longrightarrow> \<not> includes_text t s \<Longrightarrow> replace_token t v s = s"
  by (induction s) auto

lemma search_word_Some:
  assumes "search (word t) pre s = Some m" "t \<noteq> []"
  shows "\<exists>b. before m = pre @ b \<and> s = b @ t @ after m \<and> matched m = t \<and>
             replace_token t v s = b @ v @ replace_token t v (after m)"
  using assms
proof (induction s arbitrary: pre)
  case Nil
  then show ?case by (cases t) (auto simp: run_word)
next
  case (Cons c cs)
  show ?case
  proof (cases "starts_with t (c # cs)")
    case True
    have s: "c # cs = t @ drop (length t) (c # cs)" using True by (rule starts_with_append)
    have d: "drop (length t) (c # cs) = drop (length t - 1) cs"
      using Cons.prems(2) by (cases t) auto
    have m: "m = \<lparr>before = pre,
        matched = take (length (c # cs) - length (drop (length t) (c # cs))) (c # cs),
        after = drop (length t) (c # cs), group1 = None\<rparr>"
      using Cons.prems(1) True by (simp add: run_word)
    have "length (c # cs) = length t + length (drop (length t) (c # cs))"
      using s by (metis length_append)
    then have "length (c # cs) - length (drop (length t) (c # cs)) = length t"
      by linarith
    then have "matched m = take (length t) (c # cs)" using m by simp
    also have "\<dots> = t" using s by (metis append_eq_conv_conj)
    finally have mt: "matched m = t" .
    have am: "after m = drop (length t) (c # cs)" using m by simp
    have r: "replace_token t v (c # cs) = v @ replace_token t v (after m)"
      using True d am by simp
    have "before m = pre @ []" using m by simp
    moreover have "c # cs = [] @ t @ after m" using s am by simp
    moreover have "replace_token t v (c # cs) = [] @ v @ replace_token t v (after m)"
      using r by simp
    ultimately show ?thesis using mt by blast
  next
    case False
    then have "search (word t) (pre @ [c]) cs = Some m"
      using Cons.prems(1) by (simp add: run_word)
    from Cons.IH [OF this Cons.prems(2)] obtain b where
      b: "before m = (pre @ [c]) @ b" "cs = b @ t @ after m" "matched m = t"
         "replace_token t v cs = b @ v @ replace_token t v (after m)" by blast
    have "before m = pre @ (c # b)" using b(1) by simp
    moreover have "c # cs = (c # b) @ t @ after m" using b(2) by simp
    moreover have "replace_token t v (c # cs) = (c # b) @ v @ replace_token t v (after m)"
      using False b(4) by simp
    ultimately show ?thesis using b(3) by blast
  qed
qed

lemma replace_all_word:
  assumes "t \<noteq> []" "CHR ''$'' \<notin> set v"
  shows "replace_all (word t) v pre s = replace_token t v s"
proof (induction "length s" arbitrary: s pre rule: less_induct)
  case less
  show ?case
  proof (cases "search (word t) [] s")
    case None
    then have "\<not> includes_text t s" by (simp add: search_word_None_iff)
    then show ?thesis using None assms(1)
      by (simp add: replace_all_no_match replace_token_no_match)
  next
    case (Some m)
    from search_word_Some [OF Some assms(1), of v] obtain b where
      b: "before m = b" "s = b @ t @ after m" "matched m = t"
         "replace_token t v s = b @ v @ replace_token t v (after m)" by auto
    have "length s = length b + length t + length (after m)" using b(2)
      by (metis length_append add.assoc)
    moreover have "0 < length t" using assms(1) by simp
    ultimately have "length (after m) < length s" by linarith
    then have ih: "replace_all (word t) v (pre @ before m @ matched m) (after m) =
        replace_token t v (after m)" by (rule less)
    have "replace_all (word t) v pre s =
        before m @ expand v (matched m) (pre @ before m) (after m) @
        replace_all (word t) v (pre @ before m @ matched m) (after m)"
      using Some b(3) assms(1) by (simp add: replace_all.simps [of _ _ _ s])
    also have "\<dots> = b @ v @ replace_token t v (after m)"
      using ih b(1) assms(2) by (simp add: expand_plain)
    finally show ?thesis using b(4) by simp
  qed
qed

text \<open>
  C8.  Substituting a second time changes nothing once the first result holds none of
  the placeholders: for the heading and explanation placeholders of the image prompts,
  and for the transcript placeholder of the content prompt.
\<close>

theorem substitute_twice:
  "(\<not> includes_text ''{heading}'' (substitute T h e) \<and>
    \<not> includes_text ''{explanation}'' (substitute T h e)
      \<longrightarrow> substitute (substitute T h e) h e = substitute T h e) \<and>
   (\<not> includes_text ''{transcript}'' (substitute_transcript P t)
      \<longrightarrow> substitute_transcript (substitute_transcript P t) t = substitute_transcript P t)"
  by (simp add: substitute_def substitute_transcript_def replace_all_absent)

theorem substitute_twice_witness:
  "substitute (substitute ''Hi {heading}, {explanation}'' ''A'' ''B'') ''A'' ''B'' = ''Hi A, B'' \<and>
   substitute_transcript (substitute_transcript ''Say {transcript}'' ''C'') ''C'' = ''Say C''"
proof -
  have 1: "substitute ''Hi {heading}, {explanation}'' ''A'' ''B'' = ''Hi A, B''"
    by (simp add: substitute_def replace_all_word)
  have 2: "substitute_transcript ''Say {transcript}'' ''C'' = ''Say C''"
    by (simp add: substitute_transcript_def replace_all_word)
  have 3: "\<not> includes_text ''{heading}'' ''Hi A, B''" "\<not> includes_text ''{explanation}'' ''Hi A, B''"
    "\<not> includes_text ''{transcript}'' ''Say C''"
    by simp_all
  show ?thesis
    using substitute_twice [of "''Hi {heading}, {explanation}''" "''A''" "''B''"
        "''Say {transcript}''" "''C''"] 1 2 3
    by simp
qed

text \<open>
  C2, as the code has it.  The two placeholders are replaced one after the other.
  For values without a dollar sign: every occurrence of \<open>{heading}\<close> in the template
  is replaced by the heading value, then every occurrence of \<open>{explanation}\<close> in the
  text so obtained, those that came in with the heading value among them, is replaced
  by the explanation value; everything else stays as it is, so a template with neither
  placeholder is unchanged, whatever the values.
\<close>

theorem substitute_one_after_the_other:
  "(CHR ''$'' \<notin> set h \<and> CHR ''$'' \<notin> set e \<longrightarrow>
      substitute T h e =
        replace_token ''{explanation}'' e (replace_token ''{heading}'' h T)) \<and>
   (\<not> includes_text ''{heading}'' T \<and> \<not> includes_text ''{explanation}'' T \<longrightarrow>
      substitute T h e = T)"
  by (simp add: substitute_def replace_all_word replace_all_absent)

theorem substitute_one_after_the_other_witness:
  "substitute ''{heading}: {explanation} {other}'' ''Cats'' ''Independent.'' =
     ''Cats: Independent. {other}'' \<and>
   substitute ''Draw {other}'' ''Cats'' ''$&'' = ''Draw {other}''"
  using substitute_one_after_the_other
          [of "''Cats''" "''Independent.''" "''{heading}: {explanation} {other}''"]
        substitute_one_after_the_other [of "''Cats''" "''$&''" "''Draw {other}''"]
  by simp

text \<open>
  C2 as the specification words it fails twice.  A heading value that holds the text
  \<open>{explanation}\<close> is substituted again by the second replacement, and a value with a
  dollar pattern is not inserted as it is: \<open>$&\<close> stands for the placeholder matched.
\<close>

theorem substitute_rescans_counterexample:
  "substitute ''Title: {heading}'' ''see {explanation}'' ''body'' = ''Title: see body'' \<and>
   substitute ''{heading}: {explanation}'' ''$&'' ''x'' = ''{heading}: x''"
  by code_simp


section \<open>An example environment\<close>

definition example_response :: response where
  \<comment> \<open>a response with one image part\<close>
  "example_response =
     \<lparr>response_text = None,
      candidates = Some [\<lparr>parts = Some [\<lparr>thought = False,
        inlineData = Some \<lparr>mimeType = Some ''image/png'', data = Some ''iVBORw0KGgo=''\<rparr>,
        part_text = None\<rparr>]\<rparr>],
      usageMetadata = None, stringified = ''{}''\<rparr>"

definition example_env :: env where
  \<comment> \<open>the second generation call fails, every other call answers with the image; the
     clock stands at 1000; every write succeeds; the program lies below \<open>/srv/app\<close>\<close>
  "example_env =
     \<lparr>ai_generateContent =
        (\<lambda>k p. if k = 1 then Throws (Some ''quota exceeded'') else Returns example_response),
      date_now = (\<lambda>k. 1000),
      fs_write = (\<lambda>k. Returns ()),
      project_dir = [''srv'', ''app'']\<rparr>"

definition example_world :: world where
  \<comment> \<open>nothing done yet; on the disk the reference image, an image file that may not
     be read, and the upload directory\<close>
  "example_world =
     \<lparr>sent = [], clock_reads = 0, writes = 0,
      files = [''/srv/app/uploads/carousel/ref.png'' \<mapsto> Readable ''iVBORw0KGgo='',
               ''/srv/app/uploads/carousel/locked.png'' \<mapsto>
                 Unreadable (Some ''EACCES: permission denied, open''),
               ''/srv/app/uploads/carousel'' \<mapsto>
                 Unreadable (Some ''EISDIR: illegal operation on a directory, read'')]\<rparr>"

definition example_slide :: "int \<Rightarrow> slide_content" where
  "example_slide n = \<lparr>slideNumber = Number n, heading = ''Cats'', explanation = ''Independent.''\<rparr>"

definition failure :: "slide_content \<Rightarrow> string \<Rightarrow> generation_result" where
  \<comment> \<open>the result pushed for a slide whose round has thrown an error with this message\<close>
  "failure slide msg =
     \<lparr>result_slideNumber = slideNumber slide, imageUrl = None, status = failed,
      result_tokens = None, result_error = Some msg\<rparr>"

lemma example_paths:
  "reference_path example_env ''/uploads/carousel/ref.png'' = ''/srv/app/uploads/carousel/ref.png''"
  "reference_path example_env ''/uploads/carousel/locked.png'' =
     ''/srv/app/uploads/carousel/locked.png''"
  "reference_path example_env ''/uploads/carousel'' = ''/srv/app/uploads/carousel''"
  "reference_path example_env ''//uploads/./carousel/../carousel/ref.png'' =
     ''/srv/app/uploads/carousel/ref.png''"
  "reference_path example_env ''/../../../etc/'' = ''/etc/''"
  "reference_path example_env ''/'' = ''/srv/app''"
  "reference_path example_env ''/../..'' = ''/''"
  by (simp_all add: reference_path_def join_below_def absolute_def example_env_def)


section \<open>Blank prompts\<close>

lemma slides_loop_blank:
  "blank_prompt prompt \<Longrightarrow>
     slides_loop en w prompt ss =
       (map (\<lambda>s. failure s
          ''Prompt is required. Please provide a prompt in the remaining images prompt box.'') ss, w)"
  by (induction ss)
     (simp_all add: slide_result_def slide_attempt_def failure_def message_of_def)





section \<open>Stage C, slide by slide\<close>

text \<open>
  What Stage C does for the slide at position \<open>i\<close> of its list, read off the
  environment.  With a prompt that is not blank every slide makes one generation call,
  so the call of slide \<open>i\<close> is the \<open>i\<close>-th call of the batch; a slide reads the clock
  and writes only when its answer carries an image, so its write is preceded by as
  many writes as slides before it have got an image.
\<close>

definition final_prompt :: "string option \<Rightarrow> slide_content \<Rightarrow> string" where
  \<comment> \<open>the prompt sent for a slide: the placeholders filled in, the guard applied\<close>
  "final_prompt prompt slide =
     image_instruction_guard (substitute (or_empty prompt) (heading slide) (explanation slide))"

fun image_in :: "response outcome \<Rightarrow> string option" where
  \<comment> \<open>the image data an answer of the generation service carries\<close>
  "image_in (Throws err) = None"
| "image_in (Returns r) =
     (case candidates r of
        None \<Rightarrow> None
      | Some [] \<Rightarrow> None
      | Some (c # _) \<Rightarrow> find_image (case parts c of None \<Rightarrow> [] | Some ps \<Rightarrow> ps))"

definition answer ::
  "env \<Rightarrow> world \<Rightarrow> string option \<Rightarrow> slide_content list \<Rightarrow> nat \<Rightarrow> response outcome" where
  \<comment> \<open>the answer to the call of slide \<open>i\<close>, in a batch begun in world \<open>w\<close>\<close>
  "answer en w prompt slides i =
     ai_generateContent en (length (sent w) + i) (final_prompt prompt (slides ! i))"

definition images_before ::
  "env \<Rightarrow> world \<Rightarrow> string option \<Rightarrow> slide_content list \<Rightarrow> nat \<Rightarrow> nat" where
  \<comment> \<open>how many slides before slide \<open>i\<close> have got an image\<close>
  "images_before en w prompt slides i =
     length (filter (\<lambda>j. image_in (answer en w prompt slides j) \<noteq> None) [0..<i])"

definition slide_failure ::
  "env \<Rightarrow> world \<Rightarrow> string option \<Rightarrow> slide_content list \<Rightarrow> nat \<Rightarrow> string option" where
  \<comment> \<open>the message with which the round of slide \<open>i\<close> fails, \<open>None\<close> when nothing
     fails: a blank prompt, a generation call that throws, an answer without
     candidates, an answer without an image part, a write that throws\<close>
  "slide_failure en w prompt slides i =
     (if blank_prompt prompt
      then Some ''Prompt is required. Please provide a prompt in the remaining images prompt box.''
      else case answer en w prompt slides i of
             Throws err \<Rightarrow> Some (message_of err)
           | Returns r \<Rightarrow>
               (case candidates r of
                  None \<Rightarrow> Some ''No candidates in response''
                | Some [] \<Rightarrow> Some ''No candidates in response''
                | Some (c # _) \<Rightarrow>
                    (case find_image (case parts c of None \<Rightarrow> [] | Some ps \<Rightarrow> ps) of
                       None \<Rightarrow> Some ''No image data found''
                     | Some d \<Rightarrow>
                         (case fs_write en (writes w + images_before en w prompt slides i) of
                            Throws err \<Rightarrow> Some (message_of err)
                          | Returns _ \<Rightarrow> None))))"

definition slide_file ::
  "env \<Rightarrow> world \<Rightarrow> string option \<Rightarrow> slide_content list \<Rightarrow> nat \<Rightarrow> string" where
  \<comment> \<open>the name of the file of slide \<open>i\<close>: its number and the clock reading of its
     round\<close>
  "slide_file en w prompt slides i =
     image_filename (slideNumber (slides ! i))
       (date_now en (clock_reads w + images_before en w prompt slides i))"

definition answer_tokens :: "response outcome \<Rightarrow> tokens" where
  "answer_tokens a = (case a of Returns r \<Rightarrow> tokens_of r | Throws _ \<Rightarrow> Tokens 0 0 0)"

definition expected_result ::
  "env \<Rightarrow> world \<Rightarrow> string option \<Rightarrow> slide_content list \<Rightarrow> nat \<Rightarrow> generation_result" where
  \<comment> \<open>the result of slide \<open>i\<close>\<close>
  "expected_result en w prompt slides i =
     (case slide_failure en w prompt slides i of
        Some msg \<Rightarrow> failure (slides ! i) msg
      | None \<Rightarrow>
          \<lparr>result_slideNumber = slideNumber (slides ! i),
           imageUrl = Some (image_url (slide_file en w prompt slides i)),
           status = completed,
           result_tokens = Some (answer_tokens (answer en w prompt slides i)),
           result_error = None\<rparr>)"

definition slide_write ::
  "env \<Rightarrow> world \<Rightarrow> string option \<Rightarrow> slide_content list \<Rightarrow> nat \<Rightarrow> (string \<times> string) option"
  where
  \<comment> \<open>the file that the round of slide \<open>i\<close> writes, its path and its content, \<open>None\<close>
     when the round fails\<close>
  "slide_write en w prompt slides i =
     (case slide_failure en w prompt slides i of
        Some msg \<Rightarrow> None
      | None \<Rightarrow>
          (case image_in (answer en w prompt slides i) of
             None \<Rightarrow> None
           | Some d \<Rightarrow> Some (image_path en (slide_file en w prompt slides i), d)))"

definition put_file :: "(string \<rightharpoonup> disk_file) \<Rightarrow> (string \<times> string) option \<Rightarrow> (string \<rightharpoonup> disk_file)"
  where
  "put_file fs x = (case x of None \<Rightarrow> fs | Some (p, d) \<Rightarrow> fs(p \<mapsto> Readable d))"

lemma images_before_0 [simp]: "images_before en w prompt slides 0 = 0"
  by (simp add: images_before_def)

lemma upt_Suc_shift: "[0..<Suc i] = 0 # map Suc [0..<i]"
  by (simp add: upt_conv_Cons map_Suc_upt del: upt_Suc)

lemma message_of_Some: "message_of (Some m) = m"
  by (simp add: message_of_def)

text \<open>One round of the loop, in any world.\<close>

lemma slide_result_round:
  "slide_result en w prompt s =
     (expected_result en w prompt [s] 0,
      if blank_prompt prompt then w
      else w\<lparr>sent := sent w @ [final_prompt prompt s],
             clock_reads := clock_reads w +
               (if image_in (answer en w prompt [s] 0) = None then 0 else 1),
             writes := writes w + (if image_in (answer en w prompt [s] 0) = None then 0 else 1),
             files := put_file (files w) (slide_write en w prompt [s] 0)\<rparr>)"
  by (auto simp: slide_result_def slide_attempt_def save_image_def call_generate_def
        expected_result_def slide_failure_def slide_write_def slide_file_def put_file_def
        answer_def final_prompt_def answer_tokens_def failure_def Let_def message_of_Some
      split: outcome.splits option.splits list.splits)

lemma at_head:
  "answer en w prompt (s # ss) 0 = answer en w prompt [s] 0"
  "slide_failure en w prompt (s # ss) 0 = slide_failure en w prompt [s] 0"
  "slide_file en w prompt (s # ss) 0 = slide_file en w prompt [s] 0"
  "expected_result en w prompt (s # ss) 0 = expected_result en w prompt [s] 0"
  "slide_write en w prompt (s # ss) 0 = slide_write en w prompt [s] 0"
proof -
  show a: "answer en w prompt (s # ss) 0 = answer en w prompt [s] 0"
    by (simp add: answer_def)
  show f: "slide_failure en w prompt (s # ss) 0 = slide_failure en w prompt [s] 0"
    unfolding slide_failure_def a images_before_0 ..
  show n: "slide_file en w prompt (s # ss) 0 = slide_file en w prompt [s] 0"
    unfolding slide_file_def images_before_0 by simp
  show "expected_result en w prompt (s # ss) 0 = expected_result en w prompt [s] 0"
    unfolding expected_result_def a f n nth_Cons_0 ..
  show "slide_write en w prompt (s # ss) 0 = slide_write en w prompt [s] 0"
    unfolding slide_write_def a f n ..
qed

lemma shifted:
  assumes "length (sent v) = Suc (length (sent w))"
    and "clock_reads v = clock_reads w + b" "writes v = writes w + b"
    and "b = (if image_in (answer en w prompt (s # ss) 0) = None then 0 else 1)"
  shows "answer en w prompt (s # ss) (Suc j) = answer en v prompt ss j"
    and "images_before en w prompt (s # ss) (Suc j) = b + images_before en v prompt ss j"
    and "slide_failure en w prompt (s # ss) (Suc j) = slide_failure en v prompt ss j"
    and "slide_file en w prompt (s # ss) (Suc j) = slide_file en v prompt ss j"
    and "expected_result en w prompt (s # ss) (Suc j) = expected_result en v prompt ss j"
    and "slide_write en w prompt (s # ss) (Suc j) = slide_write en v prompt ss j"
proof -
  have a: "answer en w prompt (s # ss) (Suc k) = answer en v prompt ss k" for k
    using assms(1) by (simp add: answer_def)
  define P where "P k \<longleftrightarrow> image_in (answer en w prompt (s # ss) k) \<noteq> None" for k
  define Q where "Q k \<longleftrightarrow> image_in (answer en v prompt ss k) \<noteq> None" for k
  have pq: "P \<circ> Suc = Q" by (rule ext) (simp add: P_def Q_def a)
  have b: "b = (if P 0 then 1 else 0)" using assms(4) by (simp add: P_def)
  have "length (filter P [0..<Suc k]) = b + length (filter Q [0..<k])" for k
    unfolding upt_Suc_shift by (simp add: b filter_map pq)
  then have i: "images_before en w prompt (s # ss) (Suc k) = b + images_before en v prompt ss k"
    for k
    unfolding images_before_def P_def Q_def .
  have w: "writes w + (b + n) = writes v + n" "clock_reads w + (b + n) = clock_reads v + n" for n
    using assms(2,3) by simp_all
  have nth: "(s # ss) ! Suc j = ss ! j" by simp
  show "answer en w prompt (s # ss) (Suc j) = answer en v prompt ss j" by (rule a)
  show "images_before en w prompt (s # ss) (Suc j) = b + images_before en v prompt ss j"
    by (rule i)
  show f: "slide_failure en w prompt (s # ss) (Suc j) = slide_failure en v prompt ss j"
    unfolding slide_failure_def a i w ..
  show n: "slide_file en w prompt (s # ss) (Suc j) = slide_file en v prompt ss j"
    unfolding slide_file_def i w nth ..
  show "expected_result en w prompt (s # ss) (Suc j) = expected_result en v prompt ss j"
    unfolding expected_result_def a f n nth ..
  show "slide_write en w prompt (s # ss) (Suc j) = slide_write en v prompt ss j"
    unfolding slide_write_def a f n ..
qed

lemma blank_expected:
  "blank_prompt prompt \<Longrightarrow>
     expected_result en w prompt slides i = failure (slides ! i)
       ''Prompt is required. Please provide a prompt in the remaining images prompt box.''"
  by (simp add: expected_result_def slide_failure_def)

text \<open>The whole loop: the results, and the world it leaves.\<close>

lemma slides_loop_closed:
  assumes "\<not> blank_prompt prompt"
  shows "slides_loop en w prompt slides =
     (map (expected_result en w prompt slides) [0..<length slides],
      w\<lparr>sent := sent w @ map (final_prompt prompt) slides,
        clock_reads := clock_reads w + images_before en w prompt slides (length slides),
        writes := writes w + images_before en w prompt slides (length slides),
        files := foldl put_file (files w)
                   (map (slide_write en w prompt slides) [0..<length slides])\<rparr>)"
proof (induction slides arbitrary: w)
  case Nil
  show ?case by simp
next
  case (Cons s ss)
  define b :: nat where "b = (if image_in (answer en w prompt (s # ss) 0) = None then 0 else 1)"
  define v where "v = w\<lparr>sent := sent w @ [final_prompt prompt s],
             clock_reads := clock_reads w + b, writes := writes w + b,
             files := put_file (files w) (slide_write en w prompt (s # ss) 0)\<rparr>"
  have r: "slide_result en w prompt s = (expected_result en w prompt (s # ss) 0, v)"
    using assms by (simp add: slide_result_round at_head [of en w prompt s ss, symmetric] v_def b_def)
  have v: "length (sent v) = Suc (length (sent w))" "clock_reads v = clock_reads w + b"
    "writes v = writes w + b"
    by (simp_all add: v_def)
  note sh = shifted [OF v b_def]
  have m: "map (expected_result en w prompt (s # ss)) [0..<length (s # ss)] =
      expected_result en w prompt (s # ss) 0 #
        map (expected_result en v prompt ss) [0..<length ss]"
    unfolding length_Cons upt_Suc_shift by (simp add: o_def sh)
  have f: "map (slide_write en w prompt (s # ss)) [0..<length (s # ss)] =
      slide_write en w prompt (s # ss) 0 # map (slide_write en v prompt ss) [0..<length ss]"
    unfolding length_Cons upt_Suc_shift by (simp add: o_def sh)
  have i: "images_before en w prompt (s # ss) (length (s # ss)) =
      b + images_before en v prompt ss (length ss)"
    by (simp add: sh)
  have "slides_loop en w prompt (s # ss) =
      (expected_result en w prompt (s # ss) 0 # fst (slides_loop en v prompt ss),
       snd (slides_loop en v prompt ss))"
    by (simp add: r split: prod.splits)
  also have "\<dots> =
      (expected_result en w prompt (s # ss) 0 #
         map (expected_result en v prompt ss) [0..<length ss],
       v\<lparr>sent := sent v @ map (final_prompt prompt) ss,
         clock_reads := clock_reads v + images_before en v prompt ss (length ss),
         writes := writes v + images_before en v prompt ss (length ss),
         files := foldl put_file (files v)
                    (map (slide_write en v prompt ss) [0..<length ss])\<rparr>)"
    unfolding Cons.IH [of v] by simp
  also have "\<dots> =
      (map (expected_result en w prompt (s # ss)) [0..<length (s # ss)],
       w\<lparr>sent := sent w @ map (final_prompt prompt) (s # ss),
         clock_reads := clock_reads w + images_before en w prompt (s # ss) (length (s # ss)),
         writes := writes w + images_before en w prompt (s # ss) (length (s # ss)),
         files := foldl put_file (files w)
                    (map (slide_write en w prompt (s # ss)) [0..<length (s # ss)])\<rparr>)"
    unfolding m f i by (simp add: v_def)
  finally show ?case .
qed


text \<open>
  C1, as the code has it.  When the slide list is not empty and the reference image is
  there and can be read, Stage C answers 200 with one result per slide, in the order
  of the slides, and the prompt of every slide has been sent: no round ends the loop.
  The round of a slide fails when the prompt is blank, when its generation call
  throws, when the answer has no candidates or no image part, or when its write
  throws; its result then has the number of the slide, status failed and the message
  of the failure.  In every other case its result has the number of the slide, status
  completed, the URL of the image and the token counts.
\<close>

theorem stage_c_one_result_per_slide:
  assumes "slides \<noteq> []" "\<not> falsy url"
    and "files w (reference_path en (or_empty url)) = Some (Readable d)"
  shows
    "\<exists>results w'.
       generate_remaining_images en w prompt (Some slides) url =
         (Reply 200 (RemainingBody results), w') \<and>
       length results = length slides \<and>
       (\<forall>i < length slides.
          case slide_failure en w prompt slides i of
            Some msg \<Rightarrow> results ! i = failure (slides ! i) msg
          | None \<Rightarrow>
              \<exists>u t. results ! i =
                \<lparr>result_slideNumber = slideNumber (slides ! i), imageUrl = Some u,
                 status = completed, result_tokens = Some t, result_error = None\<rparr>) \<and>
       sent w' = (if blank_prompt prompt then sent w
                  else sent w @ map (final_prompt prompt) slides)"
proof -
  obtain s ss where ss: "slides = s # ss" using assms(1) by (cases slides) auto
  let ?results = "map (expected_result en w prompt slides) [0..<length slides]"
  define w' where "w' = snd (slides_loop en w prompt slides)"
  have "slides_loop en w prompt slides = (?results, w') \<and>
      sent w' = (if blank_prompt prompt then sent w
                 else sent w @ map (final_prompt prompt) slides)"
  proof (cases "blank_prompt prompt")
    case True
    have "map (\<lambda>s. failure s
        ''Prompt is required. Please provide a prompt in the remaining images prompt box.'')
        slides = ?results"
      by (rule nth_equalityI) (simp_all add: blank_expected [OF True])
    then have "slides_loop en w prompt slides = (?results, w)"
      using True by (simp add: slides_loop_blank)
    then show ?thesis using True by (simp add: w'_def)
  next
    case False
    have "slides_loop en w prompt slides =
     (?results,
      w\<lparr>sent := sent w @ map (final_prompt prompt) slides,
        clock_reads := clock_reads w + images_before en w prompt slides (length slides),
        writes := writes w + images_before en w prompt slides (length slides),
        files := foldl put_file (files w)
                   (map (slide_write en w prompt slides) [0..<length slides])\<rparr>)"
      using False by (rule slides_loop_closed)
    then show ?thesis using False by (simp add: w'_def)
  qed
  then have loop: "slides_loop en w prompt slides = (?results, w')"
    and sent: "sent w' = (if blank_prompt prompt then sent w
                          else sent w @ map (final_prompt prompt) slides)"
    by simp_all
  have reply: "generate_remaining_images en w prompt (Some slides) url =
      (Reply 200 (RemainingBody ?results), w')"
  proof -
    have "generate_remaining_images en w prompt (Some (s # ss)) url =
        (case slides_loop en w prompt (s # ss) of
           (results, w1) \<Rightarrow> (Reply 200 (RemainingBody results), w1))"
      using assms(2,3) unfolding ss
      by (simp add: generate_remaining_images_def del: slides_loop.simps)
    then have "generate_remaining_images en w prompt (Some slides) url =
        (case slides_loop en w prompt slides of
           (results, w1) \<Rightarrow> (Reply 200 (RemainingBody results), w1))"
      unfolding ss .
    then show ?thesis unfolding loop by simp
  qed
  have each: "case slide_failure en w prompt slides i of
            Some msg \<Rightarrow> ?results ! i = failure (slides ! i) msg
          | None \<Rightarrow>
              \<exists>u t. ?results ! i =
                \<lparr>result_slideNumber = slideNumber (slides ! i), imageUrl = Some u,
                 status = completed, result_tokens = Some t, result_error = None\<rparr>"
    if "i < length slides" for i
    using that by (simp add: expected_result_def split: option.splits)
  show ?thesis
  proof (intro exI conjI)
    show "generate_remaining_images en w prompt (Some slides) url =
        (Reply 200 (RemainingBody ?results), w')"
      by (rule reply)
    show "length ?results = length slides" by simp
    show "\<forall>i < length slides.
          case slide_failure en w prompt slides i of
            Some msg \<Rightarrow> ?results ! i = failure (slides ! i) msg
          | None \<Rightarrow>
              \<exists>u t. ?results ! i =
                \<lparr>result_slideNumber = slideNumber (slides ! i), imageUrl = Some u,
                 status = completed, result_tokens = Some t, result_error = None\<rparr>"
      using each by blast
    show "sent w' = (if blank_prompt prompt then sent w
                  else sent w @ map (final_prompt prompt) slides)"
      by (rule sent)
  qed
qed

theorem stage_c_one_result_per_slide_witness:
  "\<exists>results w'.
     generate_remaining_images example_env example_world (Some ''Draw {heading}'')
         (Some [example_slide 1, example_slide 2, example_slide 3])
         (Some ''/uploads/carousel/ref.png'') =
       (Reply 200 (RemainingBody results), w') \<and>
     map result_slideNumber results = [Number 1, Number 2, Number 3] \<and>
     map status results = [completed, failed, completed] \<and>
     map result_error results = [None, Some ''quota exceeded'', None]"
proof -
  let ?slides = "[example_slide 1, example_slide 2, example_slide 3]"
  let ?p = "Some ''Draw {heading}''"
  have 1: "?slides \<noteq> []" by simp
  have 2: "\<not> falsy (Some ''/uploads/carousel/ref.png'')" by (simp add: falsy_def)
  have 3: "files example_world
      (reference_path example_env (or_empty (Some ''/uploads/carousel/ref.png''))) =
      Some (Readable ''iVBORw0KGgo='')"
    by (simp add: example_world_def reference_path_def join_below_def absolute_def
          example_env_def or_empty_def)
  have b: "\<not> blank_prompt ?p"
    by (simp add: blank_prompt_def falsy_def or_empty_def trim_def is_space_def)
  have a: "answer example_env example_world ?p ?slides i =
      (if i = 1 then Throws (Some ''quota exceeded'') else Returns example_response)" for i
    by (simp add: answer_def example_env_def example_world_def)
  have f: "slide_failure example_env example_world ?p ?slides 0 = None"
    "slide_failure example_env example_world ?p ?slides 1 = Some ''quota exceeded''"
    "slide_failure example_env example_world ?p ?slides 2 = None"
    unfolding slide_failure_def a
    by (simp_all add: b example_response_def example_env_def message_of_def)
  from stage_c_one_result_per_slide [OF 1 2 3, where prompt = ?p]
  obtain results w' where r:
    "generate_remaining_images example_env example_world ?p (Some ?slides)
        (Some ''/uploads/carousel/ref.png'') = (Reply 200 (RemainingBody results), w')"
    "length results = length ?slides"
    "\<forall>i < length ?slides.
        case slide_failure example_env example_world ?p ?slides i of
          Some msg \<Rightarrow> results ! i = failure (?slides ! i) msg
        | None \<Rightarrow>
            \<exists>u t. results ! i =
              \<lparr>result_slideNumber = slideNumber (?slides ! i), imageUrl = Some u,
               status = completed, result_tokens = Some t, result_error = None\<rparr>"
    by blast
  from r(2) obtain x y z where xyz: "results = [x, y, z]"
    by (auto simp: length_Suc_conv eval_nat_numeral)
  have "case slide_failure example_env example_world ?p ?slides 0 of
          Some msg \<Rightarrow> results ! 0 = failure (?slides ! 0) msg
        | None \<Rightarrow>
            \<exists>u t. results ! 0 =
              \<lparr>result_slideNumber = slideNumber (?slides ! 0), imageUrl = Some u,
               status = completed, result_tokens = Some t, result_error = None\<rparr>"
    by (rule r(3) [rule_format]) simp
  then have x: "result_slideNumber x = Number 1 \<and> status x = completed \<and> result_error x = None"
    unfolding f xyz by (auto simp: example_slide_def)
  have "case slide_failure example_env example_world ?p ?slides 1 of
          Some msg \<Rightarrow> results ! 1 = failure (?slides ! 1) msg
        | None \<Rightarrow>
            \<exists>u t. results ! 1 =
              \<lparr>result_slideNumber = slideNumber (?slides ! 1), imageUrl = Some u,
               status = completed, result_tokens = Some t, result_error = None\<rparr>"
    by (rule r(3) [rule_format]) simp
  then have y: "result_slideNumber y = Number 2 \<and> status y = failed \<and>
      result_error y = Some ''quota exceeded''"
    unfolding f xyz by (auto simp: example_slide_def failure_def)
  have "case slide_failure example_env example_world ?p ?slides 2 of
          Some msg \<Rightarrow> results ! 2 = failure (?slides ! 2) msg
        | None \<Rightarrow>
            \<exists>u t. results ! 2 =
              \<lparr>result_slideNumber = slideNumber (?slides ! 2), imageUrl = Some u,
               status = completed, result_tokens = Some t, result_error = None\<rparr>"
    by (rule r(3) [rule_format]) simp
  then have z: "result_slideNumber z = Number 3 \<and> status z = completed \<and> result_error z = None"
    unfolding f xyz by (auto simp: example_slide_def)
  from r(1) x y z xyz show ?thesis by auto
qed

text \<open>
  C1 as the specification words it asks only that the reference image is there.  A
  reference that is there and cannot be read, an image file without read permission or
  the upload directory itself, makes the whole call fail with status 500: no slide
  gets a result.
\<close>

theorem stage_c_unreadable_reference_counterexample:
  "fst (generate_remaining_images example_env example_world (Some ''Draw {heading}'')
          (Some [example_slide 1]) (Some ''/uploads/carousel/locked.png'')) =
     Reply 500 (ErrorBody ''Failed to generate remaining images''
       (Some ''EACCES: permission denied, open'')) \<and>
   fst (generate_remaining_images example_env example_world (Some ''Draw {heading}'')
          (Some [example_slide 1]) (Some ''/uploads/carousel'')) =
     Reply 500 (ErrorBody ''Failed to generate remaining images''
       (Some ''EISDIR: illegal operation on a directory, read''))"
  by (simp add: generate_remaining_images_def falsy_def or_empty_def reference_path_def
        join_below_def absolute_def example_env_def example_world_def message_of_def
      del: slides_loop.simps)


section \<open>File names\<close>

lemma digit_value_nth: "k < 10 \<Longrightarrow> digit_value (''0123456789'' ! k) = k"
proof -
  assume "k < 10"
  then have "k = 0 \<or> k = 1 \<or> k = 2 \<or> k = 3 \<or> k = 4 \<or> k = 5 \<or> k = 6 \<or> k = 7 \<or> k = 8 \<or> k = 9"
    by presburger
  then show ?thesis by (auto simp: digit_value_def)
qed

lemma digit_nth: "k < 10 \<Longrightarrow> ''0123456789'' ! k \<in> set ''0123456789''"
  by (rule nth_mem) simp

lemma decimal_snoc: "decimal (xs @ [c]) = 10 * decimal xs + digit_value c"
  by (simp add: decimal_def)

lemma decimal_show_nat: "decimal (show_nat n) = n"
proof (induction n rule: show_nat.induct)
  case (1 n)
  show ?case
  proof (cases "n < 10")
    case True
    then show ?thesis by (simp add: show_nat.simps [of n] decimal_def digit_value_nth)
  next
    case False
    then have "decimal (show_nat (n div 10)) = n div 10" by (rule 1)
    then show ?thesis
      using False by (simp add: show_nat.simps [of n] decimal_snoc digit_value_nth)
  qed
qed

lemma show_nat_digits: "show_nat n \<noteq> [] \<and> set (show_nat n) \<subseteq> set ''0123456789''"
proof (induction n rule: show_nat.induct)
  case (1 n)
  show ?case
  proof (cases "n < 10")
    case True
    then show ?thesis using digit_nth [of n] by (simp add: show_nat.simps [of n])
  next
    case False
    then have "set (show_nat (n div 10)) \<subseteq> set ''0123456789''" using 1 by blast
    moreover have "''0123456789'' ! (n mod 10) \<in> set ''0123456789''"
      by (rule digit_nth) simp
    ultimately show ?thesis using False by (simp add: show_nat.simps [of n])
  qed
qed

lemma show_nat_inj: "show_nat a = show_nat b \<Longrightarrow> a = b"
  by (metis decimal_show_nat)

lemma show_nat_no_dash: "CHR ''-'' \<notin> set (show_nat n)"
  using show_nat_digits [of n] by auto

lemma show_nat_hd: "\<exists>c cs. show_nat n = c # cs \<and> c \<in> set ''0123456789''"
  using show_nat_digits [of n] by (cases "show_nat n") auto

lemma show_number_inj: "show_number x = show_number y \<Longrightarrow> x = y"
proof (cases x; cases y)
  fix i j
  assume xy: "x = Number i" "y = Number j" and eq: "show_number x = show_number y"
  obtain c cs where c: "show_nat (nat (- i)) = c # cs" "c \<in> set ''0123456789''"
    using show_nat_hd by blast
  obtain d ds where d: "show_nat (nat i) = d # ds" "d \<in> set ''0123456789''"
    using show_nat_hd by blast
  obtain c' cs' where c': "show_nat (nat (- j)) = c' # cs'" "c' \<in> set ''0123456789''"
    using show_nat_hd by blast
  obtain d' ds' where d': "show_nat (nat j) = d' # ds'" "d' \<in> set ''0123456789''"
    using show_nat_hd by blast
  consider "i < 0" "j < 0" | "i < 0" "\<not> j < 0" | "\<not> i < 0" "j < 0" | "\<not> i < 0" "\<not> j < 0"
    by blast
  then show "x = y"
  proof cases
    case 1
    then have "show_nat (nat (- i)) = show_nat (nat (- j))" using eq xy by simp
    then have "nat (- i) = nat (- j)" by (rule show_nat_inj)
    then show ?thesis using 1 xy by simp
  next
    case 2
    then have "CHR ''-'' = d'" using eq xy d' by simp
    then show ?thesis using d'(2) by auto
  next
    case 3
    then have "CHR ''-'' = d" using eq xy d by simp
    then show ?thesis using d(2) by auto
  next
    case 4
    then have "show_nat (nat i) = show_nat (nat j)" using eq xy by simp
    then have "nat i = nat j" by (rule show_nat_inj)
    then show ?thesis using 4 xy by simp
  qed
next
  fix i
  assume xy: "x = Number i" "y = NaN" and eq: "show_number x = show_number y"
  obtain c cs where c: "show_nat (nat (- i)) = c # cs" "c \<in> set ''0123456789''"
    using show_nat_hd by blast
  obtain d ds where d: "show_nat (nat i) = d # ds" "d \<in> set ''0123456789''"
    using show_nat_hd by blast
  show "x = y" using xy eq c d by (auto split: if_splits)
next
  fix j
  assume xy: "x = NaN" "y = Number j" and eq: "show_number x = show_number y"
  obtain c cs where c: "show_nat (nat (- j)) = c # cs" "c \<in> set ''0123456789''"
    using show_nat_hd by blast
  obtain d ds where d: "show_nat (nat j) = d # ds" "d \<in> set ''0123456789''"
    using show_nat_hd by blast
  show "x = y" using xy eq c d by (auto split: if_splits)
next
  assume "x = NaN" "y = NaN"
  then show "x = y" by simp
qed

lemma split_at_last:
  assumes "x \<notin> set b" "x \<notin> set b'" "a @ x # b = a' @ x # b'"
  shows "a = a' \<and> b = b'"
proof -
  have "rev b @ x # rev a = rev b' @ x # rev a'"
    using assms(3) by (metis rev.simps(2) rev_append append.assoc append_Cons append_Nil)
  moreover have "takeWhile (\<lambda>c. c \<noteq> x) (rev b @ x # rev a) = rev b"
    using assms(1) by (auto simp add: takeWhile_tail)
  moreover have "takeWhile (\<lambda>c. c \<noteq> x) (rev b' @ x # rev a') = rev b'"
    using assms(2) by (auto simp add: takeWhile_tail)
  ultimately have "rev b = rev b'" by simp
  then show ?thesis using assms(3) by simp
qed

lemma image_filename_inj:
  "image_filename n t = image_filename n' t' \<longleftrightarrow> n = n' \<and> t = t'"
proof
  assume "image_filename n t = image_filename n' t'"
  then have "(show_number n @ CHR ''-'' # show_nat t) @ ''.png'' =
      (show_number n' @ CHR ''-'' # show_nat t') @ ''.png''"
    by (simp add: image_filename_def)
  then have "show_number n @ CHR ''-'' # show_nat t = show_number n' @ CHR ''-'' # show_nat t'"
    by (simp only: append_same_eq)
  then have "show_number n = show_number n' \<and> show_nat t = show_nat t'"
    using split_at_last [OF show_nat_no_dash show_nat_no_dash] by blast
  then show "n = n' \<and> t = t'" using show_number_inj show_nat_inj by blast
qed simp


lemma image_filename_plain: "CHR ''/'' \<notin> set (image_filename n t)"
proof -
  have "CHR ''/'' \<notin> set (show_nat k)" for k
    using show_nat_digits [of k] by auto
  then show ?thesis by (cases n) (auto simp: image_filename_def)
qed

lemma segments_plain: "CHR ''/'' \<notin> set x \<Longrightarrow> segments seg x = [seg @ x]"
  by (induction x arbitrary: seg) auto

lemma image_path_name:
  "image_path en (image_filename n t) = uploadsDir en @ CHR ''/'' # image_filename n t"
proof -
  have s: "segments [] (image_filename n t) = [image_filename n t]"
    using segments_plain [OF image_filename_plain, of "[]"] by simp
  have h: "image_filename n t = CHR ''t'' # tl (image_filename n t)"
    by (simp add: image_filename_def)
  have d: "image_filename n t \<noteq> []" "image_filename n t \<noteq> ''.''" "image_filename n t \<noteq> ''..''"
    "last (image_filename n t) = CHR ''g''"
    by (simp_all add: image_filename_def)
  show ?thesis
    by (simp add: image_path_def join_below_def s d uploadsDir_def absolute_def)
qed

definition first_image_write ::
  "env \<Rightarrow> world \<Rightarrow> string option \<Rightarrow> string option \<Rightarrow> string option \<Rightarrow> string option" where
  \<comment> \<open>the content of the file that Stage B writes, \<open>None\<close> when it writes none:
     heading, explanation and prompt are there, the answer carries an image and the
     write succeeds\<close>
  "first_image_write en w prompt h e =
     (if falsy h \<or> falsy e \<or> blank_prompt prompt then None
      else case image_in (ai_generateContent en (length (sent w))
                  (image_instruction_guard
                     (substitute (or_empty prompt) (or_empty h) (or_empty e)))) of
             None \<Rightarrow> None
           | Some d \<Rightarrow> (case fs_write en (writes w) of Throws err \<Rightarrow> None | Returns _ \<Rightarrow> Some d))"

lemma first_image_written:
  "first_image_write en w prompt h e = Some d \<Longrightarrow>
   generate_first_image en w prompt h e n =
     (Reply 200 (FirstImageBody (image_url (image_filename n (date_now en (clock_reads w))))
        n (answer_tokens (ai_generateContent en (length (sent w))
             (image_instruction_guard
                (substitute (or_empty prompt) (or_empty h) (or_empty e)))))),
      w\<lparr>sent := sent w @ [image_instruction_guard
                (substitute (or_empty prompt) (or_empty h) (or_empty e))],
        clock_reads := Suc (clock_reads w), writes := Suc (writes w),
        files := (files w)(image_path en (image_filename n (date_now en (clock_reads w)))
                   \<mapsto> Readable d)\<rparr>)"
  by (auto simp: generate_first_image_def first_image_attempt_def first_image_write_def
        save_image_def call_generate_def answer_tokens_def Let_def
      split: outcome.splits option.splits list.splits if_splits)

lemma first_image_unwritten:
  "first_image_write en w prompt h e = None \<Longrightarrow>
     files (snd (generate_first_image en w prompt h e n)) = files w"
  by (auto simp: generate_first_image_def first_image_attempt_def first_image_write_def
        save_image_def call_generate_def Let_def
      split: outcome.splits option.splits list.splits if_splits)

lemma first_image_error:
  "first_image_write en w prompt h e = None \<Longrightarrow>
     \<exists>code err msg. fst (generate_first_image en w prompt h e n) = Reply code (ErrorBody err msg)"
  by (auto simp: generate_first_image_def first_image_attempt_def first_image_write_def
        save_image_def call_generate_def Let_def
      split: outcome.splits option.splits list.splits if_splits)

lemma put_file_none: "\<forall>x \<in> set xs. x = None \<Longrightarrow> foldl put_file fs xs = fs"
  by (induction xs arbitrary: fs) (simp_all add: put_file_def)

lemma slide_write_cases:
  "slide_write en w prompt slides i =
     (case slide_failure en w prompt slides i of
        Some msg \<Rightarrow> None
      | None \<Rightarrow> Some (image_path en (slide_file en w prompt slides i),
                   the (image_in (answer en w prompt slides i))))"
  by (auto simp: slide_write_def slide_failure_def
      split: outcome.splits option.splits list.splits if_splits)

lemma slides_loop_files:
  "files (snd (slides_loop en w prompt slides)) =
     foldl put_file (files w) (map (slide_write en w prompt slides) [0..<length slides])"
proof (cases "blank_prompt prompt")
  case True
  then have "\<forall>x \<in> set (map (slide_write en w prompt slides) [0..<length slides]). x = None"
    by (simp add: slide_write_def slide_failure_def)
  then have "foldl put_file (files w) (map (slide_write en w prompt slides) [0..<length slides]) =
      files w"
    by (rule put_file_none)
  then show ?thesis using True by (simp add: slides_loop_blank)
next
  case False
  then show ?thesis by (simp add: slides_loop_closed)
qed

lemma slides_loop_results:
  "fst (slides_loop en w prompt slides) =
     map (expected_result en w prompt slides) [0..<length slides]"
proof (cases "blank_prompt prompt")
  case True
  have "map (\<lambda>s. failure s
        ''Prompt is required. Please provide a prompt in the remaining images prompt box.'')
        slides = map (expected_result en w prompt slides) [0..<length slides]"
    by (rule nth_equalityI) (simp_all add: blank_expected [OF True])
  then show ?thesis using True by (simp add: slides_loop_blank)
next
  case False
  then show ?thesis by (simp add: slides_loop_closed)
qed

text \<open>
  C9, as the code has it.  Every image is written into the upload directory under the
  name \<open>test-slide-\<close>, slide number, \<open>-\<close>, clock reading, \<open>.png\<close>, for slide numbers
  that are safe integers and clock readings in that range.  Stage B writes one file
  when it succeeds, named by the slide number of the request and the clock reading of
  the call, and its URL names the same file; when it fails it writes none.  A batch of
  Stage C writes one file for every slide that is completed, in the order of the
  slides, each named by the number of its slide and the clock reading of its round.
  Two names are equal exactly when both the slide numbers and the clock readings are
  equal: writes that differ in the slide number or in the millisecond never share a
  file, and a later write with the same number in the same millisecond replaces the
  file of the earlier one.
\<close>

theorem image_file_named_by_number_and_time:
  assumes "safe_integer n" "safe_integer n'" "t \<le> 2 ^ 53" "t' \<le> 2 ^ 53"
    and "\<forall>k. date_now en k \<le> 2 ^ 53"
    and "\<forall>s \<in> set slides. safe_integer (slideNumber s)"
  shows
    "image_path en (image_filename n t) =
       uploadsDir en @ ''/test-slide-'' @ show_number n @ ''-'' @ show_nat t @ ''.png'' \<and>
     (image_path en (image_filename n t) = image_path en (image_filename n' t')
        \<longleftrightarrow> n = n' \<and> t = t') \<and>
     (case first_image_write en w prompt h e of
        Some d \<Rightarrow>
          (\<exists>tk. fst (generate_first_image en w prompt h e n) =
             Reply 200 (FirstImageBody
               (image_url (image_filename n (date_now en (clock_reads w)))) n tk)) \<and>
          files (snd (generate_first_image en w prompt h e n)) =
            (files w)(image_path en (image_filename n (date_now en (clock_reads w)))
               \<mapsto> Readable d)
      | None \<Rightarrow>
          (\<exists>code err msg. fst (generate_first_image en w prompt h e n) =
             Reply code (ErrorBody err msg)) \<and>
          files (snd (generate_first_image en w prompt h e n)) = files w) \<and>
     (slides \<noteq> [] \<and> \<not> falsy url \<and>
      files w (reference_path en (or_empty url)) = Some (Readable ref) \<longrightarrow>
        (\<exists>results w'.
           generate_remaining_images en w prompt (Some slides) url =
             (Reply 200 (RemainingBody results), w') \<and>
           length results = length slides \<and>
           files w' = foldl put_file (files w)
                        (map (slide_write en w prompt slides) [0..<length slides]) \<and>
           (\<forall>i < length slides.
              case slide_failure en w prompt slides i of
                Some msg \<Rightarrow>
                  slide_write en w prompt slides i = None \<and> imageUrl (results ! i) = None
              | None \<Rightarrow>
                  (\<exists>d. slide_write en w prompt slides i =
                     Some (image_path en (image_filename (slideNumber (slides ! i))
                             (date_now en (clock_reads w + images_before en w prompt slides i))),
                           d)) \<and>
                  imageUrl (results ! i) =
                    Some (image_url (image_filename (slideNumber (slides ! i))
                            (date_now en (clock_reads w + images_before en w prompt slides i)))))))"
proof -
  have 1: "image_path en (image_filename n t) =
       uploadsDir en @ ''/test-slide-'' @ show_number n @ ''-'' @ show_nat t @ ''.png''"
    unfolding image_path_name by (simp add: image_filename_def)
  have 2: "image_path en (image_filename n t) = image_path en (image_filename n' t')
        \<longleftrightarrow> n = n' \<and> t = t'"
    by (simp add: image_path_name image_filename_inj)
  have 3: "case first_image_write en w prompt h e of
        Some d \<Rightarrow>
          (\<exists>tk. fst (generate_first_image en w prompt h e n) =
             Reply 200 (FirstImageBody
               (image_url (image_filename n (date_now en (clock_reads w)))) n tk)) \<and>
          files (snd (generate_first_image en w prompt h e n)) =
            (files w)(image_path en (image_filename n (date_now en (clock_reads w)))
               \<mapsto> Readable d)
      | None \<Rightarrow>
          (\<exists>code err msg. fst (generate_first_image en w prompt h e n) =
             Reply code (ErrorBody err msg)) \<and>
          files (snd (generate_first_image en w prompt h e n)) = files w"
  proof (cases "first_image_write en w prompt h e")
    case None
    with first_image_unwritten [OF None, of n] first_image_error [OF None, of n]
    show ?thesis by simp
  next
    case (Some d)
    then show ?thesis using first_image_written [OF Some, of n] by simp
  qed
  have 4: "\<exists>results w'.
           generate_remaining_images en w prompt (Some slides) url =
             (Reply 200 (RemainingBody results), w') \<and>
           length results = length slides \<and>
           files w' = foldl put_file (files w)
                        (map (slide_write en w prompt slides) [0..<length slides]) \<and>
           (\<forall>i < length slides.
              case slide_failure en w prompt slides i of
                Some msg \<Rightarrow>
                  slide_write en w prompt slides i = None \<and> imageUrl (results ! i) = None
              | None \<Rightarrow>
                  (\<exists>d. slide_write en w prompt slides i =
                     Some (image_path en (image_filename (slideNumber (slides ! i))
                             (date_now en (clock_reads w + images_before en w prompt slides i))),
                           d)) \<and>
                  imageUrl (results ! i) =
                    Some (image_url (image_filename (slideNumber (slides ! i))
                            (date_now en (clock_reads w + images_before en w prompt slides i)))))"
    if a: "slides \<noteq> []" "\<not> falsy url"
      "files w (reference_path en (or_empty url)) = Some (Readable ref)"
  proof -
    obtain s ss where ss: "slides = s # ss" using a(1) by (cases slides) auto
    let ?results = "map (expected_result en w prompt slides) [0..<length slides]"
    define v where "v = snd (slides_loop en w prompt slides)"
    have loop: "slides_loop en w prompt slides = (?results, v)"
      using slides_loop_results [of en w prompt slides] by (simp add: prod_eq_iff v_def)
    have "generate_remaining_images en w prompt (Some (s # ss)) url =
        (case slides_loop en w prompt (s # ss) of
           (results, w1) \<Rightarrow> (Reply 200 (RemainingBody results), w1))"
      using a(2,3) unfolding ss
      by (simp add: generate_remaining_images_def del: slides_loop.simps)
    then have "generate_remaining_images en w prompt (Some slides) url =
        (case slides_loop en w prompt slides of
           (results, w1) \<Rightarrow> (Reply 200 (RemainingBody results), w1))"
      unfolding ss .
    then have reply: "generate_remaining_images en w prompt (Some slides) url =
        (Reply 200 (RemainingBody ?results), v)"
      by (simp add: loop)
    have each: "case slide_failure en w prompt slides i of
                Some msg \<Rightarrow>
                  slide_write en w prompt slides i = None \<and> imageUrl (?results ! i) = None
              | None \<Rightarrow>
                  (\<exists>d. slide_write en w prompt slides i =
                     Some (image_path en (image_filename (slideNumber (slides ! i))
                             (date_now en (clock_reads w + images_before en w prompt slides i))),
                           d)) \<and>
                  imageUrl (?results ! i) =
                    Some (image_url (image_filename (slideNumber (slides ! i))
                            (date_now en (clock_reads w + images_before en w prompt slides i))))"
      if "i < length slides" for i
      using that
      by (simp add: expected_result_def slide_write_cases slide_file_def failure_def
            split: option.splits)
    show ?thesis
    proof (intro exI conjI)
      show "generate_remaining_images en w prompt (Some slides) url =
          (Reply 200 (RemainingBody ?results), v)"
        by (rule reply)
      show "length ?results = length slides" by simp
      show "files v = foldl put_file (files w)
                        (map (slide_write en w prompt slides) [0..<length slides])"
        unfolding v_def by (rule slides_loop_files)
      show "\<forall>i < length slides.
              case slide_failure en w prompt slides i of
                Some msg \<Rightarrow>
                  slide_write en w prompt slides i = None \<and> imageUrl (?results ! i) = None
              | None \<Rightarrow>
                  (\<exists>d. slide_write en w prompt slides i =
                     Some (image_path en (image_filename (slideNumber (slides ! i))
                             (date_now en (clock_reads w + images_before en w prompt slides i))),
                           d)) \<and>
                  imageUrl (?results ! i) =
                    Some (image_url (image_filename (slideNumber (slides ! i))
                            (date_now en (clock_reads w + images_before en w prompt slides i))))"
        using each by blast
    qed
  qed
  from 1 2 3 4 show ?thesis by blast
qed


theorem image_file_named_by_number_and_time_witness:
  "image_path example_env (image_filename (Number 1) 1000) \<noteq>
     image_path example_env (image_filename (Number 2) 1000) \<and>
   files (snd (generate_first_image example_env example_world (Some ''Draw {heading}'')
                 (Some ''Cats'') (Some ''Independent.'') (Number 1))) =
     (files example_world)(image_path example_env (image_filename (Number 1) 1000)
        \<mapsto> Readable ''iVBORw0KGgo='') \<and>
   (\<exists>results w'.
      generate_remaining_images example_env example_world (Some ''Draw {heading}'')
          (Some [example_slide 1, example_slide 2]) (Some ''/uploads/carousel/ref.png'') =
        (Reply 200 (RemainingBody results), w') \<and>
      imageUrl (results ! 0) = Some (image_url (image_filename (Number 1) 1000)) \<and>
      imageUrl (results ! 1) = None)"
proof -
  let ?p = "Some ''Draw {heading}''"
  let ?slides = "[example_slide 1, example_slide 2]"
  have s: "safe_integer (Number 1)" "safe_integer (Number 2)" "(1000 :: nat) \<le> 2 ^ 53"
    "\<forall>k. date_now example_env k \<le> 2 ^ 53"
    "\<forall>s \<in> set ?slides. safe_integer (slideNumber s)"
    by (simp_all add: example_env_def example_slide_def)
  note t = image_file_named_by_number_and_time [OF s(1) s(2) s(3) s(3) s(4) s(5)]
  note t2 = t [THEN conjunct2, THEN conjunct1]
  note t3 = t [THEN conjunct2, THEN conjunct2, THEN conjunct1]
  note t4 = t [THEN conjunct2, THEN conjunct2, THEN conjunct2]
  have b: "\<not> blank_prompt ?p"
    by (simp add: blank_prompt_def falsy_def or_empty_def trim_def is_space_def)
  have f: "first_image_write example_env example_world ?p (Some ''Cats'') (Some ''Independent.'') =
      Some ''iVBORw0KGgo=''"
    using b
    by (simp add: first_image_write_def falsy_def example_env_def example_world_def
          example_response_def)
  have c: "date_now example_env k = 1000" "clock_reads example_world = 0" for k
    by (simp_all add: example_env_def example_world_def)
  have 1: "image_path example_env (image_filename (Number 1) 1000) \<noteq>
     image_path example_env (image_filename (Number 2) 1000)"
    using t2 by simp
  have 2: "files (snd (generate_first_image example_env example_world ?p
                 (Some ''Cats'') (Some ''Independent.'') (Number 1))) =
     (files example_world)(image_path example_env (image_filename (Number 1) 1000)
        \<mapsto> Readable ''iVBORw0KGgo='')"
    using t3 [of example_world ?p "Some ''Cats''" "Some ''Independent.''"]
    by (simp add: f c)
  have r: "\<not> falsy (Some ''/uploads/carousel/ref.png'')"
    "files example_world
      (reference_path example_env (or_empty (Some ''/uploads/carousel/ref.png''))) =
      Some (Readable ''iVBORw0KGgo='')"
    by (simp_all add: falsy_def example_world_def reference_path_def join_below_def
          absolute_def example_env_def or_empty_def)
  have a: "answer example_env example_world ?p ?slides i =
      (if i = 1 then Throws (Some ''quota exceeded'') else Returns example_response)" for i
    by (simp add: answer_def example_env_def example_world_def)
  have sf: "slide_failure example_env example_world ?p ?slides 0 = None"
    "slide_failure example_env example_world ?p ?slides 1 = Some ''quota exceeded''"
    unfolding slide_failure_def a
    by (simp_all add: b example_response_def example_env_def message_of_def)
  from t4 [of "Some ''/uploads/carousel/ref.png''" example_world "''iVBORw0KGgo=''" ?p] r
  obtain results w' where g:
    "generate_remaining_images example_env example_world ?p (Some ?slides)
        (Some ''/uploads/carousel/ref.png'') = (Reply 200 (RemainingBody results), w')"
    "\<forall>i < length ?slides.
       case slide_failure example_env example_world ?p ?slides i of
         Some msg \<Rightarrow>
           slide_write example_env example_world ?p ?slides i = None \<and>
           imageUrl (results ! i) = None
       | None \<Rightarrow>
           (\<exists>d. slide_write example_env example_world ?p ?slides i =
              Some (image_path example_env (image_filename (slideNumber (?slides ! i))
                      (date_now example_env (clock_reads example_world +
                         images_before example_env example_world ?p ?slides i))), d)) \<and>
           imageUrl (results ! i) =
             Some (image_url (image_filename (slideNumber (?slides ! i))
                     (date_now example_env (clock_reads example_world +
                        images_before example_env example_world ?p ?slides i))))"
    by blast
  have "case slide_failure example_env example_world ?p ?slides 0 of
         Some msg \<Rightarrow>
           slide_write example_env example_world ?p ?slides 0 = None \<and>
           imageUrl (results ! 0) = None
       | None \<Rightarrow>
           (\<exists>d. slide_write example_env example_world ?p ?slides 0 =
              Some (image_path example_env (image_filename (slideNumber (?slides ! 0))
                      (date_now example_env (clock_reads example_world +
                         images_before example_env example_world ?p ?slides 0))), d)) \<and>
           imageUrl (results ! 0) =
             Some (image_url (image_filename (slideNumber (?slides ! 0))
                     (date_now example_env (clock_reads example_world +
                        images_before example_env example_world ?p ?slides 0))))"
    by (rule g(2) [rule_format]) simp
  then have 3: "imageUrl (results ! 0) = Some (image_url (image_filename (Number 1) 1000))"
    unfolding sf c by (simp add: example_slide_def)
  have "case slide_failure example_env example_world ?p ?slides 1 of
         Some msg \<Rightarrow>
           slide_write example_env example_world ?p ?slides 1 = None \<and>
           imageUrl (results ! 1) = None
       | None \<Rightarrow>
           (\<exists>d. slide_write example_env example_world ?p ?slides 1 =
              Some (image_path example_env (image_filename (slideNumber (?slides ! 1))
                      (date_now example_env (clock_reads example_world +
                         images_before example_env example_world ?p ?slides 1))), d)) \<and>
           imageUrl (results ! 1) =
             Some (image_url (image_filename (slideNumber (?slides ! 1))
                     (date_now example_env (clock_reads example_world +
                        images_before example_env example_world ?p ?slides 1))))"
    by (rule g(2) [rule_format]) simp
  then have 4: "imageUrl (results ! 1) = None"
    unfolding sf by simp
  from 1 2 g(1) 3 4 show ?thesis by blast
qed

text \<open>
  C9 as the specification words it has any two writes go to different files.  Two
  slides of one batch that carry the same number and are written in the same
  millisecond get the same file name: the first and the third slide below.
\<close>

theorem same_millisecond_counterexample:
  "fst (generate_remaining_images example_env example_world (Some ''Draw {heading}'')
          (Some [example_slide 1, example_slide 2, example_slide 1])
          (Some ''/uploads/carousel/ref.png'')) =
     Reply 200 (RemainingBody
       [\<lparr>result_slideNumber = Number 1,
         imageUrl = Some ''/uploads/carousel/test-slide-1-1000.png'',
         status = completed, result_tokens = Some (Tokens 0 0 0), result_error = None\<rparr>,
        \<lparr>result_slideNumber = Number 2, imageUrl = None, status = failed,
         result_tokens = None, result_error = Some ''quota exceeded''\<rparr>,
        \<lparr>result_slideNumber = Number 1,
         imageUrl = Some ''/uploads/carousel/test-slide-1-1000.png'',
         status = completed, result_tokens = Some (Tokens 0 0 0), result_error = None\<rparr>])"
  by code_simp


section \<open>Facts about matching\<close>

lemma greedy_all:
  "(\<And>c cs. p c \<Longrightarrow> f (c # cs) = []) \<Longrightarrow> concat (map f (greedy p s)) = f (dropWhile p s)"
  by (induction s) auto

lemma space_not_digit: "is_space c \<Longrightarrow> \<not> is_digit c"
  by (auto simp: is_space_def is_digit_def)

fun sets_group :: "regex \<Rightarrow> bool" where
  \<comment> \<open>every match of the expression defines capture group 1\<close>
  "sets_group (Group a) = True"
| "sets_group (Cat a b) = (sets_group a \<or> sets_group b)"
| "sets_group (Alt a b) = (sets_group a \<and> sets_group b)"
| "sets_group _ = False"

lemma run_sets_group:
  "(r, g') \<in> set (run re (s, g)) \<Longrightarrow> g \<noteq> None \<or> sets_group re \<Longrightarrow> g' \<noteq> None"
proof (induction re arbitrary: s g r g')
  case (Cat a b)
  then obtain m h where m: "(m, h) \<in> set (run a (s, g))" "(r, g') \<in> set (run b (m, h))"
    by auto
  show ?case
  proof (cases "g \<noteq> None \<or> sets_group a")
    case True
    with Cat.IH(1) m(1) have "h \<noteq> None" by blast
    with Cat.IH(2) m(2) show ?thesis by blast
  next
    case False
    with Cat.prems(2) have "sets_group b" by simp
    with Cat.IH(2) m(2) show ?thesis by blast
  qed
next
  case (Lookahead a)
  show ?case
  proof (cases "run a (s, g)")
    case Nil
    with Lookahead.prems(1) show ?thesis by simp
  next
    case (Cons x xs)
    obtain q h where x: "x = (q, h)" by (cases x)
    with Cons Lookahead.prems(1) have "g' = h" by simp
    moreover have "(q, h) \<in> set (run a (s, g))" using Cons x by simp
    ultimately show ?thesis using Lookahead.IH Lookahead.prems(2) by fastforce
  qed
qed (auto split: list.splits if_splits)

lemma search_sets_group:
  "search re pre s = Some m \<Longrightarrow> sets_group re \<Longrightarrow> group1 m \<noteq> None"
proof (induction s arbitrary: pre)
  case Nil
  then obtain r g xs where "run re ([], None) = (r, g) # xs" "group1 m = g"
    by (auto split: list.splits)
  then show ?case using run_sets_group [of r g re "[]" None] Nil.prems(2) by simp
next
  case (Cons c cs)
  show ?case
  proof (cases "run re (c # cs, None)")
    case Nil
    with Cons show ?thesis by simp
  next
    case (Cons x xs)
    obtain r g where "x = (r, g)" by (cases x)
    with Cons Cons.prems(1) have "(r, g) \<in> set (run re (c # cs, None))" "group1 m = g"
      by auto
    then show ?thesis using run_sets_group [of r g re "c # cs" None] Cons.prems(2) by simp
  qed
qed



section \<open>Slide markers\<close>

definition marker_at :: "string \<Rightarrow> bool" where
  \<comment> \<open>for the statements: the text begins with a slide marker, that is \<open>Slide\<close> in any
     case, then white space, then a digit\<close>
  "marker_at s \<longleftrightarrow>
     starts_with_ci ''Slide'' s \<and>
     (case drop 5 s of
        [] \<Rightarrow> False
      | c # cs \<Rightarrow>
          is_space c \<and>
          (case dropWhile is_space cs of [] \<Rightarrow> False | d # ds \<Rightarrow> is_digit d))"

fun has_marker :: "string \<Rightarrow> bool" where
  \<comment> \<open>for the statements: a slide marker begins somewhere in the text\<close>
  "has_marker [] = False"
| "has_marker (c # cs) = (marker_at (c # cs) \<or> has_marker cs)"

lemma cmatch_classes [simp]:
  "cmatch Digit = is_digit" "cmatch Space = is_space" "cmatch AnyChar = (\<lambda>c. True)"
  "cmatch NotNewline = (\<lambda>c. c \<noteq> CHR 0x0A)"
  by (auto simp: fun_eq_iff)

lemma run_digits:
  "run (Group (Plus Digit)) (x, g) =
     (case x of
        [] \<Rightarrow> []
      | d # ds \<Rightarrow>
          if is_digit d
          then map (\<lambda>r. (r, Some (take (length (d # ds) - length r) (d # ds))))
                 (greedy is_digit ds)
          else [])"
  by (cases x) (auto simp: Plus_def comp_def)

lemma run_spaces_then:
  "run (Cat (Plus Space) x) (r, g) =
     (case r of
        [] \<Rightarrow> []
      | c # cs \<Rightarrow>
          if is_space c then concat (map (\<lambda>y. run x (y, g)) (greedy is_space cs)) else [])"
  by (cases r) (simp_all add: Plus_def comp_def)

lemma run_slide_marker:
  "run slide_marker (s, g) =
     (if starts_with_ci ''Slide'' s
      then (case drop 5 s of
              [] \<Rightarrow> []
            | c # cs \<Rightarrow>
                if is_space c then run (Group (Plus Digit)) (dropWhile is_space cs, g) else [])
      else [])"
proof -
  have sp: "\<And>c cs. is_space c \<Longrightarrow> run (Group (Plus Digit)) (c # cs, g) = []"
    by (simp add: run_digits space_not_digit del: run.simps)
  have gr: "concat (map (\<lambda>x. run (Group (Plus Digit)) (x, g)) (greedy is_space cs)) =
      run (Group (Plus Digit)) (dropWhile is_space cs, g)" for cs
    by (rule greedy_all) (rule sp)
  have w: "run (word_ci ''Slide'') (s, g) =
      (if starts_with_ci ''Slide'' s then [(drop 5 s, g)] else [])"
    by (simp add: run_word_ci eval_nat_numeral)
  have "run slide_marker (s, g) =
      concat (map (run (Cat (Plus Space) (Group (Plus Digit)))) (run (word_ci ''Slide'') (s, g)))"
    by (simp add: slide_marker_def)
  also have "\<dots> = (if starts_with_ci ''Slide'' s
      then run (Cat (Plus Space) (Group (Plus Digit))) (drop 5 s, g) else [])"
    by (simp only: w) simp
  also have "\<dots> = (if starts_with_ci ''Slide'' s
      then (case drop 5 s of
              [] \<Rightarrow> []
            | c # cs \<Rightarrow>
                if is_space c then run (Group (Plus Digit)) (dropWhile is_space cs, g) else [])
      else [])"
    by (simp only: run_spaces_then gr)
  finally show ?thesis .
qed

lemma greedy_not_empty: "greedy p s \<noteq> []"
  by (cases s) auto

lemma run_digits_empty:
  "run (Group (Plus Digit)) (x, g) = [] \<longleftrightarrow> (case x of [] \<Rightarrow> True | d # ds \<Rightarrow> \<not> is_digit d)"
  by (cases x) (simp_all add: run_digits greedy_not_empty del: run.simps)

lemma run_slide_marker_empty: "run slide_marker (s, g) = [] \<longleftrightarrow> \<not> marker_at s"
proof (cases "drop 5 s")
  case Nil
  then show ?thesis by (simp add: run_slide_marker marker_at_def del: run.simps)
next
  case (Cons c cs)
  show ?thesis
  proof (cases "dropWhile is_space cs")
    case Nil
    show ?thesis
      unfolding run_slide_marker marker_at_def Cons
      by (simp add: run_digits_empty Nil del: run.simps)
  next
    case (Cons d ds)
    show ?thesis
      unfolding run_slide_marker marker_at_def \<open>drop 5 s = c # cs\<close>
      by (simp add: run_digits_empty Cons del: run.simps)
  qed
qed

lemma split_loop_no_marker:
  "\<not> has_marker s \<Longrightarrow> split_loop slide_marker acc s = [Some (acc @ s)]"
proof (induction s arbitrary: acc)
  case Nil
  then show ?case by simp
next
  case (Cons c cs)
  then have "run slide_marker (c # cs, None) = []" by (simp add: run_slide_marker_empty)
  moreover have "split_loop slide_marker (acc @ [c]) cs = [Some ((acc @ [c]) @ cs)]"
    using Cons by simp
  ultimately show ?case by simp
qed

lemma split_no_marker: "\<not> has_marker s \<Longrightarrow> split s slide_marker = [Some s]"
proof (cases s)
  case Nil
  have "\<not> marker_at []" by (simp add: marker_at_def)
  then have "run slide_marker ([], None) = []" by (simp add: run_slide_marker_empty)
  then show ?thesis using Nil by (simp add: split_def)
next
  case (Cons c cs)
  assume "\<not> has_marker s"
  then show ?thesis using Cons split_loop_no_marker [of s "[]"] by (simp add: split_def)
qed


section \<open>The parser never throws\<close>

lemma patterns_set_group:
  "\<forall>p \<in> set headingPatterns. sets_group p" "\<forall>p \<in> set explanationPatterns. sets_group p"
  by (simp_all add: headingPatterns_def explanationPatterns_def)

lemma extract_heading_total:
  "\<forall>p \<in> set ps. sets_group p \<Longrightarrow> \<exists>h. extract_heading ps content = Inr h"
proof (induction ps)
  case Nil
  then show ?case by simp
next
  case (Cons p ps)
  show ?case
  proof (cases "match content p")
    case None
    with Cons show ?thesis by simp
  next
    case (Some m)
    then have "group1 m \<noteq> None"
      using Cons.prems search_sets_group [of p "[]" content m] by (simp add: match_def)
    with Some show ?thesis by auto
  qed
qed

lemma extract_explanation_total:
  "\<forall>p \<in> set ps. sets_group p \<Longrightarrow> \<exists>e. extract_explanation cur ps content = Inr e"
proof (induction ps arbitrary: cur)
  case Nil
  then show ?case by simp
next
  case (Cons p ps)
  show ?case
  proof (cases "match content p")
    case None
    with Cons show ?thesis by simp
  next
    case (Some m)
    then have "group1 m \<noteq> None"
      using Cons.prems search_sets_group [of p "[]" content m] by (simp add: match_def)
    then obtain t where t: "group1 m = Some t" by blast
    obtain e where "extract_explanation [] ps content = Inr e"
      using Cons.IH [of "[]"] Cons.prems by auto
    with Some t show ?thesis by (simp add: Let_def)
  qed
qed

definition heading_of :: "string \<Rightarrow> string" where
  \<comment> \<open>for the statements: the heading the parser takes from a block\<close>
  "heading_of content =
     (case extract_heading headingPatterns content of Inr h \<Rightarrow> h | Inl _ \<Rightarrow> [])"

definition explanation_of :: "string \<Rightarrow> string" where
  \<comment> \<open>for the statements: the explanation the parser takes from a block\<close>
  "explanation_of content =
     (case extract_explanation [] explanationPatterns content of Inr e \<Rightarrow> e | Inl _ \<Rightarrow> [])"

definition block_records :: "string option \<times> string \<Rightarrow> slide_content list" where
  \<comment> \<open>for the statements: the records of one block, a number and the text behind it\<close>
  "block_records b =
     (if heading_of (snd b) \<noteq> [] \<and> explanation_of (snd b) \<noteq> []
      then [\<lparr>slideNumber = parseInt10 (fst b), heading = heading_of (snd b),
             explanation = explanation_of (snd b)\<rparr>]
      else [])"

fun blocks :: "string option list \<Rightarrow> (string option \<times> string) list" where
  \<comment> \<open>for the statements: the blocks of a split text without its first piece, each
     the number captured and the piece behind it\<close>
  "blocks [] = []"
| "blocks [num] = [(num, [])]"
| "blocks (num # content # rest) = (num, or_empty content) # blocks rest"

lemma slide_block_records: "slide_block num content = Inr (block_records (num, content))"
proof -
  obtain h where h: "extract_heading headingPatterns content = Inr h"
    using extract_heading_total patterns_set_group(1) by blast
  obtain e where e: "extract_explanation [] explanationPatterns content = Inr e"
    using extract_explanation_total patterns_set_group(2) by blast
  show ?thesis
    by (simp add: slide_block_def block_records_def heading_of_def explanation_of_def h e)
qed

lemma slide_loop_records: "slide_loop xs = Inr (concat (map block_records (blocks xs)))"
  by (induction xs rule: slide_loop.induct) (simp_all add: slide_block_records)

lemma parse_records:
  "parseSlideContent text =
     Inr (concat (map block_records (blocks (drop 1 (split text slide_marker)))))"
  by (simp add: parseSlideContent_def slide_loop_records)

text \<open>
  C6.  The parser returns a list of records for every input text, it never throws; for
  a text in which no slide marker begins the list is empty.
\<close>

theorem parser_never_throws:
  "(\<exists>slides. parseSlideContent text = Inr slides) \<and>
   (\<not> has_marker text \<longrightarrow> parseSlideContent text = Inr [])"
  by (simp add: parse_records split_no_marker)

theorem parser_never_throws_witness:
  "parseSlideContent ''Heading: Cats Explanation: slide one, 2 cats'' = Inr []"
proof -
  have "\<not> has_marker ''Heading: Cats Explanation: slide one, 2 cats''"
    by (simp add: marker_at_def to_lower_def is_capital_def is_space_def is_digit_def)
  then show ?thesis
    using parser_never_throws [of "''Heading: Cats Explanation: slide one, 2 cats''"] by blast
qed


section \<open>Which blocks give a record\<close>

lemma strip_emphasis_empty [simp]: "strip_emphasis [] = []"
  by (simp add: strip_emphasis_def replace_all_absent)

lemma trim_empty [simp]: "trim [] = []"
  by (simp add: trim_def)

lemma replace_first_empty [simp]: "replace_first trailing_slide [] [] = []"
  by (simp add: replace_first_def trailing_slide_def newline_def)









section \<open>Emphasis markers\<close>

lemma strip_emphasis_tokens:
  "strip_emphasis x = replace_token ''__'' [] (replace_token ''**'' [] x)"
  by (simp add: strip_emphasis_def replace_all_word)









section \<open>More facts about matching\<close>

lemma run_Cat_empty: "(\<And>x. x \<in> set (run a st) \<Longrightarrow> run b x = []) \<Longrightarrow> run (Cat a b) st = []"
  by simp

lemma run_Cat_first:
  "run a st = x # xs \<Longrightarrow> run b x = y # ys \<Longrightarrow> \<exists>zs. run (Cat a b) st = y # zs"
  by simp

lemma greedy_member:
  "x \<in> set (greedy p s) \<longleftrightarrow> (\<exists>k \<le> length (takeWhile p s). x = drop k s)"
proof (induction s)
  case Nil
  then show ?case by simp
next
  case (Cons c cs)
  show ?case
  proof (cases "p c")
    case True
    have "(\<exists>k \<le> Suc (length (takeWhile p cs)). x = drop k (c # cs)) \<longleftrightarrow>
        x = c # cs \<or> (\<exists>k \<le> length (takeWhile p cs). x = drop k cs)"
    proof
      assume "\<exists>k \<le> Suc (length (takeWhile p cs)). x = drop k (c # cs)"
      then obtain k where k: "k \<le> Suc (length (takeWhile p cs))" "x = drop k (c # cs)" by blast
      show "x = c # cs \<or> (\<exists>k \<le> length (takeWhile p cs). x = drop k cs)"
      proof (cases k)
        case 0
        with k show ?thesis by simp
      next
        case (Suc j)
        with k have "j \<le> length (takeWhile p cs)" "x = drop j cs" by simp_all
        then show ?thesis by blast
      qed
    next
      assume "x = c # cs \<or> (\<exists>k \<le> length (takeWhile p cs). x = drop k cs)"
      then show "\<exists>k \<le> Suc (length (takeWhile p cs)). x = drop k (c # cs)"
      proof
        assume "x = c # cs"
        then have "x = drop 0 (c # cs)" by simp
        then show ?thesis by blast
      next
        assume "\<exists>k \<le> length (takeWhile p cs). x = drop k cs"
        then obtain k where "k \<le> length (takeWhile p cs)" "x = drop k cs" by blast
        then have "Suc k \<le> Suc (length (takeWhile p cs))" "x = drop (Suc k) (c # cs)" by simp_all
        then show ?thesis by blast
      qed
    qed
    with True Cons show ?thesis by auto
  next
    case False
    then show ?thesis by auto
  qed
qed

lemma greedy_first: "\<exists>xs. greedy p s = dropWhile p s # xs"
  by (induction s) auto

lemma run_lazy_plus_member:
  assumes "(r, g') \<in> set (run (Group (LazyPlus c)) (y, g))"
  shows "\<exists>k. 1 \<le> k \<and> k \<le> length (takeWhile (cmatch c) y) \<and> r = drop k y"
proof (cases y)
  case Nil
  with assms show ?thesis by (simp add: LazyPlus_def)
next
  case (Cons d ds)
  with assms have d: "cmatch c d" and "r \<in> set (greedy (cmatch c) ds)"
    by (auto simp: LazyPlus_def split: if_splits)
  then obtain k where "k \<le> length (takeWhile (cmatch c) ds)" "r = drop k ds"
    by (auto simp: greedy_member)
  then have "1 \<le> Suc k \<and> Suc k \<le> length (takeWhile (cmatch c) y) \<and> r = drop (Suc k) y"
    using Cons d by simp
  then show ?thesis by blast
qed

lemma starts_with_ci_before:
  "starts_with_ci t (u @ x # v) \<Longrightarrow> \<forall>c \<in> set t. to_lower x \<noteq> to_lower c \<Longrightarrow>
     starts_with_ci t u \<and> length t \<le> length u"
proof (induction t u rule: starts_with_ci.induct)
  case (1 s)
  then show ?case by simp
next
  case (2 t ts)
  then show ?case by simp
next
  case (3 t ts c cs)
  then show ?case by simp
qed

lemma appears_ci_suffix: "appears_ci t (drop k s) \<Longrightarrow> appears_ci t s"
proof (induction s arbitrary: k)
  case Nil
  then show ?case by simp
next
  case (Cons c cs)
  then show ?case by (cases k) auto
qed

lemma appears_ci_here: "starts_with_ci t s \<Longrightarrow> appears_ci t s"
  by (cases s) auto

lemma not_appears_drop: "\<not> appears_ci t s \<Longrightarrow> \<not> starts_with_ci t (drop k s)"
  using appears_ci_suffix appears_ci_here by blast


section \<open>Markers at the seams of a text\<close>

lemma newline_is_space: "is_space (CHR 0x0A)"
  by (simp add: is_space_def)

lemma newline_no_letter_of_Slide: "\<forall>c \<in> set ''Slide''. to_lower (CHR 0x0A) \<noteq> to_lower c"
  by (simp add: to_lower_def is_capital_def)

lemma dropWhile_append_all: "\<forall>x \<in> set xs. p x \<Longrightarrow> dropWhile p (xs @ ys) = dropWhile p ys"
  by (induction xs) auto

lemma marker_at_before_newline:
  assumes "marker_at (u @ CHR 0x0A # v)" and "v = [] \<or> (\<not> is_space (hd v) \<and> \<not> is_digit (hd v))"
  shows "marker_at u"
proof -
  from assms(1) have sw: "starts_with_ci ''Slide'' (u @ CHR 0x0A # v)"
    by (simp add: marker_at_def)
  then have u: "starts_with_ci ''Slide'' u" "5 \<le> length u"
    using starts_with_ci_before [OF sw newline_no_letter_of_Slide] by simp_all
  then have d: "drop 5 (u @ CHR 0x0A # v) = drop 5 u @ CHR 0x0A # v" by simp
  have v: "dropWhile is_space (CHR 0x0A # v) = [] \<or> \<not> is_digit (hd (dropWhile is_space (CHR 0x0A # v)))"
    using assms(2) by (cases v) (auto simp: newline_is_space)
  show ?thesis
  proof (cases "drop 5 u")
    case Nil
    with assms(1) d have "case dropWhile is_space v of [] \<Rightarrow> False | d # ds \<Rightarrow> is_digit d"
      by (simp add: marker_at_def)
    moreover have "dropWhile is_space v = v" using assms(2) by (cases v) auto
    ultimately show ?thesis using assms(2) by (cases v) auto
  next
    case (Cons c cs)
    with assms(1) d have c: "is_space c"
      and t: "case dropWhile is_space (cs @ CHR 0x0A # v) of [] \<Rightarrow> False | d # ds \<Rightarrow> is_digit d"
      by (simp_all add: marker_at_def)
    show ?thesis
    proof (cases "\<forall>x \<in> set cs. is_space x")
      case True
      then have "dropWhile is_space (cs @ CHR 0x0A # v) = dropWhile is_space (CHR 0x0A # v)"
        by (rule dropWhile_append_all)
      with t v show ?thesis by (cases "dropWhile is_space (CHR 0x0A # v)") auto
    next
      case False
      then obtain x where "x \<in> set cs" "\<not> is_space x" by blast
      then have "dropWhile is_space (cs @ CHR 0x0A # v) = dropWhile is_space cs @ CHR 0x0A # v"
        by (rule dropWhile_append1)
      moreover from False have "dropWhile is_space cs \<noteq> []" by simp
      ultimately have "case dropWhile is_space cs of [] \<Rightarrow> False | d # ds \<Rightarrow> is_digit d"
        using t by (cases "dropWhile is_space cs") auto
      with u(1) Cons c show ?thesis by (simp add: marker_at_def)
    qed
  qed
qed

fun no_marker_in :: "string \<Rightarrow> string \<Rightarrow> bool" where
  \<comment> \<open>no slide marker begins inside \<open>u\<close> when \<open>m\<close> follows it\<close>
  "no_marker_in [] m = True"
| "no_marker_in (c # cs) m = (\<not> marker_at (c # cs @ m) \<and> no_marker_in cs m)"

lemma no_marker_in_append:
  "no_marker_in (a @ b) m = (no_marker_in a (b @ m) \<and> no_marker_in b m)"
  by (induction a) auto

lemma no_marker_in_letter:
  "to_lower c \<noteq> CHR ''s'' \<Longrightarrow> no_marker_in (c # cs) m = no_marker_in cs m"
  by (simp add: marker_at_def to_lower_def [of "CHR ''S''"] is_capital_def)

lemma no_marker_in_end: "no_marker_in u [] = (\<not> has_marker u)"
  by (induction u) auto

lemma no_marker_in_before_newline:
  "\<not> has_marker u \<Longrightarrow> v = [] \<or> (\<not> is_space (hd v) \<and> \<not> is_digit (hd v)) \<Longrightarrow>
     no_marker_in u (CHR 0x0A # v)"
proof (induction u)
  case Nil
  then show ?case by simp
next
  case (Cons c cs)
  have "\<not> marker_at ((c # cs) @ CHR 0x0A # v)"
    using marker_at_before_newline [of "c # cs" v] Cons.prems by auto
  with Cons show ?case by simp
qed

lemma split_loop_skip:
  "no_marker_in u m \<Longrightarrow>
     split_loop slide_marker acc (u @ m) = split_loop slide_marker (acc @ u) m"
proof (induction u arbitrary: acc)
  case Nil
  then show ?case by simp
next
  case (Cons c cs)
  then have "run slide_marker (c # cs @ m, None) = []" by (simp add: run_slide_marker_empty)
  moreover have "split_loop slide_marker (acc @ [c]) (cs @ m) =
      split_loop slide_marker ((acc @ [c]) @ cs) m"
    using Cons by simp
  ultimately show ?case by simp
qed

definition digits :: "string \<Rightarrow> bool" where
  \<comment> \<open>a non-empty run of digits\<close>
  "digits n \<longleftrightarrow> n \<noteq> [] \<and> list_all is_digit n"

lemma dropWhile_digits:
  "list_all is_digit n \<Longrightarrow> dropWhile is_digit (n @ CHR 0x0A # rest) = CHR 0x0A # rest"
  by (induction n) (auto simp: is_digit_def)

lemma space_is_space: "is_space (CHR '' '')"
  by (simp add: is_space_def)

lemma run_marker_here:
  assumes "digits n"
  shows "\<exists>xs. run slide_marker (''Slide '' @ n @ CHR 0x0A # rest, g) =
           (CHR 0x0A # rest, Some n) # xs"
proof -
  obtain d ds where n: "n = d # ds" "is_digit d" "list_all is_digit ds"
    using assms by (cases n) (auto simp: digits_def)
  have sw: "starts_with_ci ''Slide'' (''Slide '' @ n @ CHR 0x0A # rest)" by simp
  have dw: "dropWhile is_space (n @ CHR 0x0A # rest) = n @ CHR 0x0A # rest"
    using n space_not_digit by auto
  obtain xs where xs: "greedy is_digit (ds @ CHR 0x0A # rest) =
      dropWhile is_digit (ds @ CHR 0x0A # rest) # xs"
    using greedy_first by blast
  have r: "dropWhile is_digit (ds @ CHR 0x0A # rest) = CHR 0x0A # rest"
    using n(3) by (rule dropWhile_digits)
  have "run slide_marker (''Slide '' @ n @ CHR 0x0A # rest, g) =
      run (Group (Plus Digit)) (n @ CHR 0x0A # rest, g)"
    using dw by (simp add: run_slide_marker space_is_space del: run.simps)
  also have "\<dots> = map (\<lambda>r. (r, Some (take (length (d # ds @ CHR 0x0A # rest) - length r)
                  (d # ds @ CHR 0x0A # rest)))) (greedy is_digit (ds @ CHR 0x0A # rest))"
    using n by (simp add: run_digits del: run.simps)
  also have "\<dots> = (CHR 0x0A # rest, Some n) #
      map (\<lambda>r. (r, Some (take (length (d # ds @ CHR 0x0A # rest) - length r)
                  (d # ds @ CHR 0x0A # rest)))) xs"
    using n(1) by (simp add: xs r)
  finally show ?thesis by blast
qed

lemma split_loop_marker:
  assumes "digits n"
  shows "split_loop slide_marker acc (''Slide '' @ n @ CHR 0x0A # rest) =
           Some acc # Some n # split_loop slide_marker [] (CHR 0x0A # rest)"
proof -
  let ?s = "''lide '' @ n @ CHR 0x0A # rest"
  obtain xs where "run slide_marker (''Slide '' @ n @ CHR 0x0A # rest, None) =
      (CHR 0x0A # rest, Some n) # xs"
    using run_marker_here [OF assms] by blast
  then have r: "run slide_marker (CHR ''S'' # ?s, None) = (CHR 0x0A # rest, Some n) # xs"
    by simp
  have l: "length (CHR 0x0A # rest) < length (CHR ''S'' # ?s)" by simp
  have "split_loop slide_marker acc (CHR ''S'' # ?s) =
      (case run slide_marker (CHR ''S'' # ?s, None) of
         [] \<Rightarrow> split_loop slide_marker (acc @ [CHR ''S'']) ?s
       | (r, g) # _ \<Rightarrow>
           if length r < length (CHR ''S'' # ?s)
           then Some acc # g # split_loop slide_marker [] r
           else if acc = [] then split_loop slide_marker (acc @ [CHR ''S'']) ?s
           else Some acc # g # split_loop slide_marker [] (CHR ''S'' # ?s))"
    by (rule split_loop.simps(2))
  also have "\<dots> = Some acc # Some n # split_loop slide_marker [] (CHR 0x0A # rest)"
    unfolding r using l by (simp del: split_loop.simps)
  finally show ?thesis by (simp del: split_loop.simps)
qed


section \<open>A text of two well-formed blocks\<close>

definition block_content :: "string \<Rightarrow> string \<Rightarrow> string \<Rightarrow> string" where
  \<comment> \<open>what stands behind the marker of a block: the line of the heading, the
     explanation and what follows it up to the next marker\<close>
  "block_content H E tail =
     (CHR 0x0A # ''Heading: '') @ H @ (CHR 0x0A # ''Explanation: '') @ E @ tail"

definition slide_block_text :: "string \<Rightarrow> string \<Rightarrow> string \<Rightarrow> string" where
  \<comment> \<open>a block: \<open>Slide N\<close>, \<open>Heading: H\<close> and \<open>Explanation: E\<close> on lines of their own\<close>
  "slide_block_text N H E = ''Slide '' @ N @ block_content H E []"

lemma no_marker_in_content:
  assumes "\<not> has_marker H" "\<not> has_marker E"
    and "(tail = [] \<and> m = []) \<or>
         (tail = [CHR 0x0A] \<and> (m = [] \<or> (\<not> is_space (hd m) \<and> \<not> is_digit (hd m))))"
  shows "no_marker_in (block_content H E tail) m"
proof -
  have lit: "no_marker_in (CHR 0x0A # ''Heading: '') x" "no_marker_in (CHR 0x0A # ''Explanation: '') x"
    "no_marker_in [CHR 0x0A] x" for x
    by (simp_all add: no_marker_in_letter to_lower_def is_capital_def del: no_marker_in.simps(2))
  have h: "no_marker_in H ((CHR 0x0A # ''Explanation: '') @ E @ tail @ m)"
    using no_marker_in_before_newline [OF assms(1), of "''Explanation: '' @ E @ tail @ m"]
    by (simp add: is_space_def is_digit_def)
  have e: "no_marker_in E (tail @ m)"
    using assms(3)
  proof
    assume "tail = [] \<and> m = []"
    then show ?thesis using assms(2) by (simp add: no_marker_in_end)
  next
    assume t: "tail = [CHR 0x0A] \<and> (m = [] \<or> (\<not> is_space (hd m) \<and> \<not> is_digit (hd m)))"
    then have "no_marker_in E (CHR 0x0A # m)"
      using no_marker_in_before_newline [OF assms(2), of m] by blast
    with t show ?thesis by simp
  qed
  have t: "no_marker_in tail m" using assms(3) lit(3) by auto
  show ?thesis
    unfolding block_content_def no_marker_in_append
    using lit h e t by (simp del: no_marker_in.simps(2))
qed

lemma split_two_blocks:
  assumes "digits N1" "digits N2" "\<not> has_marker H1" "\<not> has_marker E1"
    "\<not> has_marker H2" "\<not> has_marker E2"
  shows "split (slide_block_text N1 H1 E1 @ CHR 0x0A # slide_block_text N2 H2 E2) slide_marker =
     [Some [], Some N1, Some (block_content H1 E1 [CHR 0x0A]),
      Some N2, Some (block_content H2 E2 [])]"
proof -
  let ?m2 = "''Slide '' @ N2 @ block_content H2 E2 []"
  have c2: "block_content H2 E2 [] = CHR 0x0A # tl (block_content H2 E2 [])"
    by (simp add: block_content_def)
  have c1: "block_content H1 E1 [] @ CHR 0x0A # ?m2 = block_content H1 E1 [CHR 0x0A] @ ?m2"
    by (simp add: block_content_def)
  have c1': "block_content H1 E1 [CHR 0x0A] @ ?m2 =
      CHR 0x0A # tl (block_content H1 E1 [CHR 0x0A] @ ?m2)"
    by (simp add: block_content_def)
  have n1: "no_marker_in (block_content H1 E1 [CHR 0x0A]) ?m2"
    using assms(3,4) by (rule no_marker_in_content) (simp add: is_space_def is_digit_def)
  have n2: "no_marker_in (block_content H2 E2 []) []"
    using assms(5,6) by (rule no_marker_in_content) simp
  have "split_loop slide_marker []
         (''Slide '' @ N1 @ CHR 0x0A # tl (block_content H1 E1 [CHR 0x0A] @ ?m2)) =
      Some [] # Some N1 #
        split_loop slide_marker [] (CHR 0x0A # tl (block_content H1 E1 [CHR 0x0A] @ ?m2))"
    using assms(1) by (rule split_loop_marker)
  also have "split_loop slide_marker [] (CHR 0x0A # tl (block_content H1 E1 [CHR 0x0A] @ ?m2)) =
      split_loop slide_marker [] (block_content H1 E1 [CHR 0x0A] @ ?m2)"
    using c1' by simp
  also have "\<dots> = split_loop slide_marker ([] @ block_content H1 E1 [CHR 0x0A]) ?m2"
    using n1 by (rule split_loop_skip)
  also have "\<dots> = split_loop slide_marker (block_content H1 E1 [CHR 0x0A])
      (''Slide '' @ N2 @ CHR 0x0A # tl (block_content H2 E2 []))"
    using c2 by simp
  also have "\<dots> = Some (block_content H1 E1 [CHR 0x0A]) # Some N2 #
      split_loop slide_marker [] (CHR 0x0A # tl (block_content H2 E2 []))"
    using assms(2) by (rule split_loop_marker)
  also have "split_loop slide_marker [] (CHR 0x0A # tl (block_content H2 E2 [])) =
      split_loop slide_marker [] (block_content H2 E2 [] @ [])"
    using c2 by simp
  also have "\<dots> = split_loop slide_marker ([] @ block_content H2 E2 []) []"
    using n2 by (rule split_loop_skip)
  also have "\<dots> = [Some (block_content H2 E2 [])]" by simp
  finally have "split_loop slide_marker []
         (''Slide '' @ N1 @ CHR 0x0A # tl (block_content H1 E1 [CHR 0x0A] @ ?m2)) =
      [Some [], Some N1, Some (block_content H1 E1 [CHR 0x0A]),
       Some N2, Some (block_content H2 E2 [])]" .
  moreover have "slide_block_text N1 H1 E1 @ CHR 0x0A # slide_block_text N2 H2 E2 =
      ''Slide '' @ N1 @ CHR 0x0A # tl (block_content H1 E1 [CHR 0x0A] @ ?m2)"
    by (simp add: slide_block_text_def block_content_def)
  ultimately show ?thesis by (simp add: split_def del: split_loop.simps)
qed


section \<open>Finding a label\<close>

lemma run_label:
  "run (Cat (word_ci t) x) (s, g) =
     (if starts_with_ci t s then run x (drop (length t) s, g) else [])"
  by (simp add: run_word_ci)

lemma search_step:
  "\<not> starts_with_ci t (c # cs) \<Longrightarrow>
     search (Cat (word_ci t) x) pre (c # cs) = search (Cat (word_ci t) x) (pre @ [c]) cs"
  by (simp add: run_word_ci)

lemma search_failed_here:
  "run re (c # cs, None) = [] \<Longrightarrow> search re pre (c # cs) = search re (pre @ [c]) cs"
  by simp

lemma search_found:
  "run re (c # cs, None) = (r, g) # xs \<Longrightarrow>
     search re pre (c # cs) =
       Some \<lparr>before = pre, matched = take (length (c # cs) - length r) (c # cs),
             after = r, group1 = g\<rparr>"
  by simp

lemma search_skip_text:
  "(\<And>k. k < length u \<Longrightarrow> \<not> starts_with_ci t (drop k u @ rest)) \<Longrightarrow>
     search (Cat (word_ci t) x) pre (u @ rest) = search (Cat (word_ci t) x) (pre @ u) rest"
proof (induction u arbitrary: pre)
  case Nil
  then show ?case by simp
next
  case (Cons c cs)
  have "\<not> starts_with_ci t (drop 0 (c # cs) @ rest)" by (rule Cons.prems) simp
  then have 1: "search (Cat (word_ci t) x) pre ((c # cs) @ rest) =
      search (Cat (word_ci t) x) (pre @ [c]) (cs @ rest)"
    by (simp add: search_step del: search.simps)
  have "\<And>k. k < length cs \<Longrightarrow> \<not> starts_with_ci t (drop k cs @ rest)"
  proof -
    fix k assume "k < length cs"
    then have "Suc k < length (c # cs)" by simp
    then have "\<not> starts_with_ci t (drop (Suc k) (c # cs) @ rest)" by (rule Cons.prems)
    then show "\<not> starts_with_ci t (drop k cs @ rest)" by simp
  qed
  then have "search (Cat (word_ci t) x) (pre @ [c]) (cs @ rest) =
      search (Cat (word_ci t) x) ((pre @ [c]) @ cs) rest"
    by (rule Cons.IH)
  with 1 show ?case by simp
qed

lemma label_not_across_newline:
  assumes "\<not> appears_ci t u" "\<forall>c \<in> set t. to_lower (CHR 0x0A) \<noteq> to_lower c"
  shows "\<not> starts_with_ci t (drop k u @ CHR 0x0A # v)"
proof
  assume "starts_with_ci t (drop k u @ CHR 0x0A # v)"
  then have "starts_with_ci t (drop k u)"
    using starts_with_ci_before assms(2) by blast
  with assms(1) show False using not_appears_drop by blast
qed

lemma label_not_at_end:
  assumes "\<not> appears_ci t u"
  shows "\<not> starts_with_ci t (drop k u @ [])"
  using assms not_appears_drop by simp

lemma newline_no_letter:
  "\<forall>c \<in> set ''Heading:''. to_lower (CHR 0x0A) \<noteq> to_lower c"
  "\<forall>c \<in> set ''Explanation:''. to_lower (CHR 0x0A) \<noteq> to_lower c"
  by (simp_all add: to_lower_def is_capital_def)

definition line_end :: "string \<Rightarrow> bool" where
  \<comment> \<open>what may follow the explanation in a block: nothing, or one line break\<close>
  "line_end tail \<longleftrightarrow> tail = [] \<or> tail = [CHR 0x0A]"

lemma search_text_then_end:
  assumes "\<not> appears_ci t u" "line_end tail" "t \<noteq> []"
    "\<forall>c \<in> set t. to_lower (CHR 0x0A) \<noteq> to_lower c"
  shows "search (Cat (word_ci t) x) pre (u @ tail) = None"
proof -
  have "\<not> starts_with_ci t (drop k u @ tail)" for k
    using assms(1,2,4) label_not_across_newline [of t u k "[]"] label_not_at_end [of t u k]
    by (auto simp: line_end_def)
  then have "search (Cat (word_ci t) x) pre (u @ tail) = search (Cat (word_ci t) x) (pre @ u) tail"
    by (intro search_skip_text) blast
  also have "\<dots> = None"
    using assms(2,3,4) by (cases t) (auto simp: line_end_def run_word_ci)
  finally show ?thesis .
qed

lemma heading_label_search:
  assumes "\<not> appears_ci ''Heading:'' H" "\<not> appears_ci ''Heading:'' E" "line_end tail"
  shows "search (Cat (word_ci ''Heading:'') x) [] (block_content H E tail) =
     (case run x (CHR '' '' # H @ (CHR 0x0A # ''Explanation: '') @ E @ tail, None) of
        [] \<Rightarrow> None
      | (r, g) # _ \<Rightarrow>
          Some \<lparr>before = [CHR 0x0A],
                matched = take (length (''Heading: '' @ H @ (CHR 0x0A # ''Explanation: '') @ E @ tail)
                                  - length r)
                            (''Heading: '' @ H @ (CHR 0x0A # ''Explanation: '') @ E @ tail),
                after = r, group1 = g\<rparr>)"
proof -
  let ?re = "Cat (word_ci ''Heading:'') x"
  let ?rest = "(CHR 0x0A # ''Explanation: '') @ E @ tail"
  have ev: "starts_with_ci ''Heading:'' (''Heading: '' @ y)" for y by simp
  have 0: "search ?re [] (block_content H E tail) =
      search ?re [CHR 0x0A] (''Heading: '' @ H @ ?rest)"
    by (simp add: block_content_def search_step to_lower_def is_capital_def del: search.simps)
  have lab: "run ?re (''Heading: '' @ H @ ?rest, None) = run x (CHR '' '' # H @ ?rest, None)"
    by (simp add: run_label del: run.simps)
  show ?thesis
  proof (cases "run x (CHR '' '' # H @ ?rest, None)")
    case Nil
    then have "run ?re (CHR ''H'' # ''eading: '' @ H @ ?rest, None) = []" using lab by simp
    then have "search ?re [CHR 0x0A] (CHR ''H'' # ''eading: '' @ H @ ?rest) =
        search ?re ([CHR 0x0A] @ [CHR ''H'']) (''eading: '' @ H @ ?rest)"
      by (rule search_failed_here)
    also have "\<dots> = search ?re (CHR 0x0A # ''Heading: '') (H @ ?rest)"
      by (simp add: search_step to_lower_def is_capital_def del: search.simps)
    also have "\<dots> = search ?re ((CHR 0x0A # ''Heading: '') @ H) ?rest"
      using label_not_across_newline [OF assms(1) newline_no_letter(1)]
      by (intro search_skip_text) simp
    also have "\<dots> = search ?re ((CHR 0x0A # ''Heading: '') @ H @ (CHR 0x0A # ''Explanation: ''))
        (E @ tail)"
      by (simp add: search_step to_lower_def is_capital_def del: search.simps)
    also have "\<dots> = None"
      using assms(2,3) newline_no_letter(1) by (intro search_text_then_end) simp_all
    finally show ?thesis using 0 Nil by (simp del: search.simps)
  next
    case (Cons a as)
    obtain r g where a: "a = (r, g)" by (cases a)
    with Cons lab have "run ?re (CHR ''H'' # ''eading: '' @ H @ ?rest, None) = (r, g) # as"
      by simp
    then have "search ?re [CHR 0x0A] (CHR ''H'' # ''eading: '' @ H @ ?rest) =
        Some \<lparr>before = [CHR 0x0A],
              matched = take (length (CHR ''H'' # ''eading: '' @ H @ ?rest) - length r)
                          (CHR ''H'' # ''eading: '' @ H @ ?rest),
              after = r, group1 = g\<rparr>"
      by (rule search_found)
    then show ?thesis using 0 Cons a by (simp del: search.simps)
  qed
qed


lemma explanation_label_search:
  assumes "\<not> appears_ci ''Explanation:'' H"
    and "run x (CHR '' '' # E @ tail, None) = (r, g) # xs"
  shows "search (Cat (word_ci ''Explanation:'') x) [] (block_content H E tail) =
     Some \<lparr>before = (CHR 0x0A # ''Heading: '') @ H @ [CHR 0x0A],
           matched = take (length (''Explanation: '' @ E @ tail) - length r)
                       (''Explanation: '' @ E @ tail),
           after = r, group1 = g\<rparr>"
proof -
  let ?re = "Cat (word_ci ''Explanation:'') x"
  let ?lab = "''Explanation: '' @ E @ tail"
  have "search ?re [] (block_content H E tail) =
      search ?re (CHR 0x0A # ''Heading: '') (H @ CHR 0x0A # ?lab)"
    by (simp add: block_content_def search_step to_lower_def is_capital_def del: search.simps)
  also have "\<dots> = search ?re ((CHR 0x0A # ''Heading: '') @ H) (CHR 0x0A # ?lab)"
    using label_not_across_newline [OF assms(1) newline_no_letter(2)]
    by (intro search_skip_text) simp
  also have "\<dots> = search ?re ((CHR 0x0A # ''Heading: '') @ H @ [CHR 0x0A]) ?lab"
    by (simp add: search_step to_lower_def is_capital_def del: search.simps)
  finally have 0: "search ?re [] (block_content H E tail) =
      search ?re ((CHR 0x0A # ''Heading: '') @ H @ [CHR 0x0A]) ?lab" .
  have "run ?re (?lab, None) = run x (CHR '' '' # E @ tail, None)"
    by (simp add: run_label del: run.simps)
  then have "run ?re (CHR ''E'' # ''xplanation: '' @ E @ tail, None) = (r, g) # xs"
    using assms(2) by simp
  then have "search ?re ((CHR 0x0A # ''Heading: '') @ H @ [CHR 0x0A])
        (CHR ''E'' # ''xplanation: '' @ E @ tail) =
      Some \<lparr>before = (CHR 0x0A # ''Heading: '') @ H @ [CHR 0x0A],
            matched = take (length (CHR ''E'' # ''xplanation: '' @ E @ tail) - length r)
                        (CHR ''E'' # ''xplanation: '' @ E @ tail),
            after = r, group1 = g\<rparr>"
    by (rule search_found)
  then show ?thesis using 0 by (simp del: search.simps)
qed


section \<open>The heading of a well-formed block\<close>

lemma run_group_plus:
  "run (Group (Plus c)) (x, g) =
     (case x of
        [] \<Rightarrow> []
      | d # ds \<Rightarrow>
          if cmatch c d
          then map (\<lambda>r. (r, Some (take (length (d # ds) - length r) (d # ds))))
                 (greedy (cmatch c) ds)
          else [])"
  by (cases x) (auto simp: Plus_def comp_def)

lemma greedy_stops: "s = [] \<or> \<not> p (hd s) \<Longrightarrow> greedy p s = [s]"
  by (cases s) auto

lemma takeWhile_line: "CHR 0x0A \<notin> set u \<Longrightarrow> takeWhile (\<lambda>c. c \<noteq> CHR 0x0A) (u @ CHR 0x0A # v) = u"
  by (induction u) auto

lemma dropWhile_line: "CHR 0x0A \<notin> set u \<Longrightarrow> dropWhile (\<lambda>c. c \<noteq> CHR 0x0A) (u @ CHR 0x0A # v) = CHR 0x0A # v"
  by (induction u) auto

lemma heading_terminator_fails:
  assumes "CHR 0x0A \<notin> set H" "\<not> appears_ci ''Explanation:'' H"
  shows "run (Alt (Cat newline (Cat (Star Space) newline)) (word_ci ''Explanation:''))
           (drop i H @ (CHR 0x0A # ''Explanation: '') @ y, g) = []"
proof -
  let ?z = "drop i H @ (CHR 0x0A # ''Explanation: '') @ y"
  have a: "run (word_ci ''Explanation:'') (?z, g) = []"
    using label_not_across_newline [OF assms(2) newline_no_letter(2), of i "''Explanation: '' @ y"]
    by (simp add: run_word_ci)
  have b: "run (Cat newline (Cat (Star Space) newline)) (?z, g) = []"
  proof (cases "drop i H")
    case Nil
    then show ?thesis by (simp add: newline_def is_space_def)
  next
    case (Cons c cs)
    then have "c \<in> set H" by (metis in_set_dropD list.set_intros(1))
    with assms(1) have "c \<noteq> CHR 0x0A" by blast
    with Cons show ?thesis by (simp add: newline_def)
  qed
  from a b show ?thesis by (simp del: run.simps(3))
qed

lemma heading_first_pattern_fails:
  assumes "H \<noteq> []" "\<not> is_space (hd H)" "CHR 0x0A \<notin> set H" "\<not> appears_ci ''Explanation:'' H"
  shows "run (Cat (Star Space) (Cat (Group (LazyPlus NotNewline))
            (Alt (Cat newline (Cat (Star Space) newline)) (word_ci ''Explanation:''))))
           (CHR '' '' # H @ (CHR 0x0A # ''Explanation: '') @ y, None) = []"
proof (rule run_Cat_empty)
  let ?rest = "(CHR 0x0A # ''Explanation: '') @ y"
  let ?T = "Alt (Cat newline (Cat (Star Space) newline)) (word_ci ''Explanation:'')"
  fix x
  assume "x \<in> set (run (Star Space) (CHR '' '' # H @ ?rest, None))"
  then obtain s where x: "x = (s, None)" and "s \<in> set (greedy is_space (CHR '' '' # H @ ?rest))"
    by auto
  moreover have "greedy is_space (H @ ?rest) = [H @ ?rest]"
    using assms(1,2) by (intro greedy_stops) (cases H, auto)
  ultimately have s: "s = H @ ?rest \<or> s = CHR '' '' # H @ ?rest"
    by (auto simp: space_is_space)
  have tw: "takeWhile (\<lambda>c. c \<noteq> CHR 0x0A) (H @ ?rest) = H"
    using takeWhile_line [OF assms(3)] by simp
  show "run (Cat (Group (LazyPlus NotNewline)) ?T) x = []"
  proof (rule run_Cat_empty)
    fix z
    assume zin: "z \<in> set (run (Group (LazyPlus NotNewline)) x)"
    obtain r g' where z: "z = (r, g')" by (cases z)
    from zin have "(r, g') \<in> set (run (Group (LazyPlus NotNewline)) (s, None))"
      unfolding x z .
    then obtain k where k: "1 \<le> k" "k \<le> length (takeWhile (cmatch NotNewline) s)" "r = drop k s"
      using run_lazy_plus_member by blast
    have "\<exists>i. r = drop i H @ ?rest"
    proof (rule disjE [OF s])
      assume "s = H @ ?rest"
      with k tw have "r = drop k H @ ?rest" by simp
      then show ?thesis by blast
    next
      assume "s = CHR '' '' # H @ ?rest"
      with k tw have "r = drop (k - 1) H @ ?rest" by (cases k) auto
      then show ?thesis by blast
    qed
    then obtain i where "r = drop i H @ ?rest" by blast
    then show "run ?T z = []"
      using heading_terminator_fails [OF assms(3,4)] z by simp
  qed
qed

lemma heading_second_pattern:
  assumes "H \<noteq> []" "\<not> is_space (hd H)" "CHR 0x0A \<notin> set H"
  shows "\<exists>zs. run (Cat (Star Space) (Group (Plus NotNewline)))
           (CHR '' '' # H @ CHR 0x0A # y, None) = (CHR 0x0A # y, Some H) # zs"
proof -
  obtain h hs where H: "H = h # hs" using assms(1) by (cases H) auto
  have h: "h \<noteq> CHR 0x0A" "CHR 0x0A \<notin> set hs" "\<not> is_space h" using assms(2,3) H by auto
  obtain xs where "greedy is_space (CHR '' '' # H @ CHR 0x0A # y) =
      dropWhile is_space (CHR '' '' # H @ CHR 0x0A # y) # xs"
    using greedy_first by blast
  then have 1: "run (Star Space) (CHR '' '' # H @ CHR 0x0A # y, None) =
      (H @ CHR 0x0A # y, None) # map (\<lambda>r. (r, None)) xs"
    using H h by (simp add: space_is_space)
  obtain ys where ys: "greedy (\<lambda>c. c \<noteq> CHR 0x0A) (hs @ CHR 0x0A # y) =
      dropWhile (\<lambda>c. c \<noteq> CHR 0x0A) (hs @ CHR 0x0A # y) # ys"
    using greedy_first by blast
  have dl: "dropWhile (\<lambda>c. c \<noteq> CHR 0x0A) (hs @ CHR 0x0A # y) = CHR 0x0A # y"
    using h(2) by (rule dropWhile_line)
  have "run (Group (Plus NotNewline)) (H @ CHR 0x0A # y, None) =
      map (\<lambda>r. (r, Some (take (length (h # hs @ CHR 0x0A # y) - length r) (h # hs @ CHR 0x0A # y))))
        (greedy (\<lambda>c. c \<noteq> CHR 0x0A) (hs @ CHR 0x0A # y))"
    using H h(1) by (simp add: run_group_plus del: run.simps)
  also have "\<dots> = (CHR 0x0A # y, Some H) #
      map (\<lambda>r. (r, Some (take (length (h # hs @ CHR 0x0A # y) - length r) (h # hs @ CHR 0x0A # y))))
        ys"
    using H by (simp add: ys dl)
  finally have 2: "run (Group (Plus NotNewline)) (H @ CHR 0x0A # y, None) =
      (CHR 0x0A # y, Some H) #
      map (\<lambda>r. (r, Some (take (length (h # hs @ CHR 0x0A # y) - length r) (h # hs @ CHR 0x0A # y))))
        ys" .
  from run_Cat_first [OF 1 2] show ?thesis .
qed


lemma trim_plain:
  assumes "E \<noteq> []" "\<not> is_space (hd E)" "\<not> is_space (last E)" "\<forall>c \<in> set tail. is_space c"
  shows "trim (E @ tail) = E"
proof -
  have 1: "dropWhile is_space (E @ tail) = E @ tail"
    using assms(1,2) by (cases E) auto
  have "dropWhile is_space (rev tail @ rev E) = dropWhile is_space (rev E)"
    using assms(4) by (intro dropWhile_append_all) simp
  also have "\<dots> = rev E"
    using assms(1,3) by (cases "rev E") (auto simp: hd_rev)
  finally show ?thesis using 1 by (simp add: trim_def)
qed

lemma heading_of_block:
  assumes "H \<noteq> []" "\<not> is_space (hd H)" "\<not> is_space (last H)" "CHR 0x0A \<notin> set H"
    "\<not> appears_ci ''Heading:'' H" "\<not> appears_ci ''Explanation:'' H"
    "\<not> appears_ci ''Heading:'' E" "line_end tail"
  shows "heading_of (block_content H E tail) = strip_emphasis H"
proof -
  let ?content = "block_content H E tail"
  let ?X1 = "Cat (Star Space) (Cat (Group (LazyPlus NotNewline))
        (Alt (Cat newline (Cat (Star Space) newline)) (word_ci ''Explanation:'')))"
  let ?X2 = "Cat (Star Space) (Group (Plus NotNewline))"
  let ?X3 = "Cat (Star Space) (Cat (Group (LazyPlus AnyChar)) (Alt newline EndOfInput))"
  have hp: "headingPatterns =
      [Cat (word_ci ''Heading:'') ?X1, Cat (word_ci ''Heading:'') ?X2,
       Cat (word_ci ''Heading:'') ?X3]"
    by (simp add: headingPatterns_def)
  have "run ?X1 (CHR '' '' # H @ (CHR 0x0A # ''Explanation: '') @ E @ tail, None) = []"
    using assms(1,2,4,6) by (rule heading_first_pattern_fails)
  then have 1: "match ?content (Cat (word_ci ''Heading:'') ?X1) = None"
    using heading_label_search [OF assms(5,7,8), of ?X1] by (simp add: match_def del: run.simps)
  obtain zs where "run ?X2 (CHR '' '' # H @ CHR 0x0A # ''Explanation: '' @ E @ tail, None) =
      (CHR 0x0A # ''Explanation: '' @ E @ tail, Some H) # zs"
    using heading_second_pattern [OF assms(1,2,4)] by blast
  then have "run ?X2 (CHR '' '' # H @ (CHR 0x0A # ''Explanation: '') @ E @ tail, None) =
      (CHR 0x0A # ''Explanation: '' @ E @ tail, Some H) # zs"
    by simp
  then have "\<exists>m. match ?content (Cat (word_ci ''Heading:'') ?X2) = Some m \<and> group1 m = Some H"
    using heading_label_search [OF assms(5,7,8), of ?X2] by (simp add: match_def del: run.simps)
  then obtain m where 2: "match ?content (Cat (word_ci ''Heading:'') ?X2) = Some m"
    "group1 m = Some H" by blast
  have "trim H = H" using trim_plain [OF assms(1,2,3), of "[]"] by simp
  then have "extract_heading headingPatterns ?content = Inr (strip_emphasis H)"
    unfolding hp using 1 2 by simp
  then show ?thesis by (simp add: heading_of_def)
qed


section \<open>The explanation of a well-formed block\<close>

lemma run_plus_digit:
  "run (Plus Digit) (x, g) =
     (case x of
        [] \<Rightarrow> []
      | d # ds \<Rightarrow> if is_digit d then map (\<lambda>r. (r, g)) (greedy is_digit ds) else [])"
  by (cases x) (auto simp: Plus_def)

lemma run_marker_plain:
  assumes "run (Cat (word_ci ''Slide'') (Cat (Plus Space) (Plus Digit))) (s, g) \<noteq> []"
  shows "marker_at s"
proof -
  have sp: "\<And>c cs. is_space c \<Longrightarrow> run (Plus Digit) (c # cs, g) = []"
    by (simp add: run_plus_digit space_not_digit del: run.simps)
  have gr: "concat (map (\<lambda>x. run (Plus Digit) (x, g)) (greedy is_space cs)) =
      run (Plus Digit) (dropWhile is_space cs, g)" for cs
    by (rule greedy_all) (rule sp)
  have w: "run (word_ci ''Slide'') (s, g) =
      (if starts_with_ci ''Slide'' s then [(drop 5 s, g)] else [])"
    by (simp add: run_word_ci eval_nat_numeral)
  have "run (Cat (word_ci ''Slide'') (Cat (Plus Space) (Plus Digit))) (s, g) =
      concat (map (run (Cat (Plus Space) (Plus Digit))) (run (word_ci ''Slide'') (s, g)))"
    by simp
  also have "\<dots> = (if starts_with_ci ''Slide'' s
      then run (Cat (Plus Space) (Plus Digit)) (drop 5 s, g) else [])"
    by (simp only: w) simp
  also have "\<dots> = (if starts_with_ci ''Slide'' s
      then (case drop 5 s of
              [] \<Rightarrow> []
            | c # cs \<Rightarrow>
                if is_space c then run (Plus Digit) (dropWhile is_space cs, g) else [])
      else [])"
    by (simp only: run_spaces_then gr)
  finally have r: "run (Cat (word_ci ''Slide'') (Cat (Plus Space) (Plus Digit))) (s, g) =
      (if starts_with_ci ''Slide'' s
      then (case drop 5 s of
              [] \<Rightarrow> []
            | c # cs \<Rightarrow>
                if is_space c then run (Plus Digit) (dropWhile is_space cs, g) else [])
      else [])" .
  from assms have ne: "(if starts_with_ci ''Slide'' s
      then (case drop 5 s of
              [] \<Rightarrow> []
            | c # cs \<Rightarrow>
                if is_space c then run (Plus Digit) (dropWhile is_space cs, g) else [])
      else []) \<noteq> []"
    unfolding r .
  show ?thesis
  proof (cases "drop 5 s")
    case Nil
    from ne show ?thesis by (simp add: Nil del: run.simps split: if_splits)
  next
    case (Cons c cs)
    note c = Cons
    show ?thesis
    proof (cases "dropWhile is_space cs")
      case Nil
      from ne show ?thesis
        by (simp add: c Nil run_plus_digit del: run.simps split: if_splits)
    next
      case (Cons d ds)
      from ne show ?thesis
        by (simp add: c Cons run_plus_digit marker_at_def del: run.simps split: if_splits)
    qed
  qed
qed

lemma marker_at_suffix: "marker_at (drop n y) \<Longrightarrow> has_marker y"
proof (induction y arbitrary: n)
  case Nil
  then show ?case by (simp add: marker_at_def)
next
  case (Cons c cs)
  then show ?case by (cases n) auto
qed

lemma run_suffix: "(r, g') \<in> set (run re (s, g)) \<Longrightarrow> \<exists>k. r = drop k s"
proof (induction re arbitrary: s g r g')
  case Empty
  then have "r = drop 0 s" by simp
  then show ?case by blast
next
  case (Atom c)
  then have "r = drop 1 s" by (cases s) (auto split: if_splits)
  then show ?case by blast
next
  case (Cat a b)
  then obtain m h where "(m, h) \<in> set (run a (s, g))" "(r, g') \<in> set (run b (m, h))" by auto
  with Cat.IH obtain i j where "m = drop i s" "r = drop j m" by blast
  then have "r = drop (j + i) s" by simp
  then show ?case by blast
next
  case (Alt a b)
  then show ?case by auto
next
  case (Star c)
  then show ?case by (auto simp: greedy_member)
next
  case (LazyStar c)
  then show ?case by (auto simp: greedy_member)
next
  case (Group a)
  then show ?case by fastforce
next
  case (Lookahead a)
  then have "r = drop 0 s" by (auto split: list.splits)
  then show ?case by blast
next
  case EndOfInput
  then have "r = drop 0 s" by (auto split: if_splits)
  then show ?case by blast
qed

lemma lookahead_marker_fails:
  assumes "\<not> has_marker y"
  shows "run (Cat newline (Cat (Star Space)
           (Cat (word_ci ''Slide'') (Cat (Plus Space) (Plus Digit))))) (drop k y, g) = []"
proof (rule run_Cat_empty)
  fix x
  assume xin: "x \<in> set (run newline (drop k y, g))"
  obtain r h where x: "x = (r, h)" by (cases x)
  from xin obtain i where i: "r = drop i (drop k y)" unfolding x using run_suffix by blast
  show "run (Cat (Star Space) (Cat (word_ci ''Slide'') (Cat (Plus Space) (Plus Digit)))) x = []"
  proof (rule run_Cat_empty)
    fix z
    assume zin: "z \<in> set (run (Star Space) x)"
    obtain q h' where z: "z = (q, h')" by (cases z)
    from zin obtain j where "q = drop j r" unfolding x z using run_suffix by blast
    with i have "q = drop (j + i + k) y" by (simp add: add.assoc)
    then have "\<not> marker_at q" using assms marker_at_suffix by blast
    then show "run (Cat (word_ci ''Slide'') (Cat (Plus Space) (Plus Digit))) z = []"
      unfolding z using run_marker_plain by blast
  qed
qed

lemma greedy_any:
  "\<exists>T. greedy (\<lambda>c. True) s = [] # T \<and> (\<forall>x \<in> set T. x \<noteq> [] \<and> (\<exists>k < length s. x = drop k s))"
proof (induction s)
  case Nil
  then show ?case by simp
next
  case (Cons c cs)
  then obtain T where T: "greedy (\<lambda>c. True) cs = [] # T"
    "\<forall>x \<in> set T. x \<noteq> [] \<and> (\<exists>k < length cs. x = drop k cs)" by blast
  have "\<forall>x \<in> set (T @ [c # cs]). x \<noteq> [] \<and> (\<exists>k < length (c # cs). x = drop k (c # cs))"
  proof
    fix x assume "x \<in> set (T @ [c # cs])"
    then consider "x \<in> set T" | "x = c # cs" by auto
    then show "x \<noteq> [] \<and> (\<exists>k < length (c # cs). x = drop k (c # cs))"
    proof cases
      case 1
      with T(2) obtain k where "x \<noteq> []" "k < length cs" "x = drop k cs" by blast
      then have "x \<noteq> []" "Suc k < length (c # cs)" "x = drop (Suc k) (c # cs)" by simp_all
      then show ?thesis by blast
    next
      case 2
      then have "x \<noteq> []" "0 < length (c # cs)" "x = drop 0 (c # cs)" by simp_all
      then show ?thesis by blast
    qed
  qed
  with T(1) show ?case by simp
qed

lemma lazy_capture_to_end:
  assumes "y \<noteq> []"
    and "\<And>k h. 1 \<le> k \<Longrightarrow> k < length y \<Longrightarrow> run L (drop k y, h) = []"
  shows "run (Cat (Group (LazyPlus AnyChar)) L) (y, g) = run L ([], Some y)"
proof -
  obtain d ds where y: "y = d # ds" using assms(1) by (cases y) auto
  obtain T where T: "greedy (\<lambda>c. True) ds = [] # T"
    "\<forall>x \<in> set T. x \<noteq> [] \<and> (\<exists>k < length ds. x = drop k ds)"
    using greedy_any by blast
  let ?G = "\<lambda>r. (r, Some (take (length y - length r) y))"
  have "run (Group (LazyPlus AnyChar)) (y, g) = map ?G (rev (greedy (\<lambda>c. True) ds))"
    using y by (simp add: LazyPlus_def comp_def)
  also have "\<dots> = map ?G (rev T) @ [([], Some y)]" using T(1) by simp
  finally have g: "run (Group (LazyPlus AnyChar)) (y, g) = map ?G (rev T) @ [([], Some y)]" .
  have "run L (?G x) = []" if "x \<in> set T" for x
  proof -
    from that T(2) obtain k where "k < length ds" "x = drop k ds" by blast
    then have "1 \<le> Suc k" "Suc k < length y" "x = drop (Suc k) y" using y by simp_all
    then show ?thesis using assms(2) by metis
  qed
  then have "concat (map (run L) (map ?G (rev T))) = []" by simp
  then show ?thesis
    unfolding run.simps(3) g by simp
qed


lemma has_marker_with_tail:
  assumes "\<not> has_marker E" "line_end tail"
  shows "\<not> has_marker (E @ tail)"
proof -
  have "no_marker_in E (tail @ [])"
    using assms no_marker_in_before_newline [OF assms(1), of "[]"]
    by (auto simp: line_end_def no_marker_in_end)
  moreover have "no_marker_in tail []"
    using assms(2) by (auto simp: line_end_def marker_at_def to_lower_def is_capital_def)
  ultimately have "no_marker_in (E @ tail) []" by (simp add: no_marker_in_append)
  then show ?thesis by (simp add: no_marker_in_end)
qed

lemma explanation_first_pattern:
  assumes "E \<noteq> []" "\<not> is_space (hd E)" "\<not> has_marker (E @ tail)"
  shows "\<exists>zs. run (Cat (Star Space) (Cat (Group (LazyPlus AnyChar))
            (Lookahead (Alt
               (Cat newline (Cat (Star Space) (Cat (word_ci ''Slide'')
                  (Cat (Plus Space) (Plus Digit)))))
               EndOfInput))))
           (CHR '' '' # E @ tail, None) = ([], Some (E @ tail)) # zs"
proof -
  let ?A = "Cat newline (Cat (Star Space) (Cat (word_ci ''Slide'') (Cat (Plus Space) (Plus Digit))))"
  let ?L = "Lookahead (Alt ?A EndOfInput)"
  let ?y = "E @ tail"
  have y: "?y \<noteq> []" using assms(1) by simp
  obtain xs where "greedy is_space (CHR '' '' # ?y) = dropWhile is_space (CHR '' '' # ?y) # xs"
    using greedy_first by blast
  moreover have "dropWhile is_space (CHR '' '' # ?y) = ?y"
    using assms(1,2) by (cases E) (auto simp: space_is_space)
  ultimately have 1: "run (Star Space) (CHR '' '' # ?y, None) = (?y, None) # map (\<lambda>r. (r, None)) xs"
    by simp
  have fail: "run ?L (drop k ?y, h) = []" if "1 \<le> k" "k < length ?y" for k h
  proof -
    have "run ?A (drop k ?y, h) = []" using assms(3) by (rule lookahead_marker_fails)
    moreover have "drop k ?y \<noteq> []" using that(2) by (metis drop_eq_Nil leD)
    ultimately show ?thesis by (simp del: run.simps(3))
  qed
  have "run ?A ([], Some ?y) = []" by (simp add: newline_def)
  then have last: "run ?L ([], Some ?y) = [([], Some ?y)]" by (simp del: run.simps(3))
  have "run (Cat (Group (LazyPlus AnyChar)) ?L) (?y, None) = run ?L ([], Some ?y)"
    using y fail by (rule lazy_capture_to_end)
  with last have 2: "run (Cat (Group (LazyPlus AnyChar)) ?L) (?y, None) = ([], Some ?y) # []"
    by simp
  from run_Cat_first [OF 1 2] show ?thesis .
qed

lemma explanation_of_block:
  assumes "E \<noteq> []" "\<not> is_space (hd E)" "\<not> is_space (last E)" "\<not> has_marker E"
    "match E trailing_slide = None" "strip_emphasis E \<noteq> []"
    "\<not> appears_ci ''Explanation:'' H" "line_end tail"
  shows "explanation_of (block_content H E tail) = strip_emphasis E"
proof -
  let ?content = "block_content H E tail"
  let ?X1 = "Cat (Star Space) (Cat (Group (LazyPlus AnyChar))
            (Lookahead (Alt
               (Cat newline (Cat (Star Space) (Cat (word_ci ''Slide'')
                  (Cat (Plus Space) (Plus Digit)))))
               EndOfInput)))"
  obtain p2 p3 where ep: "explanationPatterns = [Cat (word_ci ''Explanation:'') ?X1, p2, p3]"
    by (simp add: explanationPatterns_def)
  have "\<not> has_marker (E @ tail)" using assms(4,8) by (rule has_marker_with_tail)
  then obtain zs where "run ?X1 (CHR '' '' # E @ tail, None) = ([], Some (E @ tail)) # zs"
    using explanation_first_pattern [OF assms(1,2)] by blast
  then have "\<exists>m. match ?content (Cat (word_ci ''Explanation:'') ?X1) = Some m \<and>
      group1 m = Some (E @ tail)"
    using explanation_label_search [OF assms(7), of ?X1 E tail "[]" "Some (E @ tail)" zs]
    by (simp add: match_def del: run.simps search.simps)
  then obtain m where m: "match ?content (Cat (word_ci ''Explanation:'') ?X1) = Some m"
    "group1 m = Some (E @ tail)" by blast
  have "\<forall>c \<in> set tail. is_space c" using assms(8) by (auto simp: line_end_def is_space_def)
  then have t1: "trim (E @ tail) = E" using trim_plain [OF assms(1,2,3)] by blast
  have t2: "trim E = E" using trim_plain [OF assms(1,2,3), of "[]"] by simp
  have r: "replace_first trailing_slide [] E = E"
    using assms(5) by (simp add: replace_first_def match_def)
  have "extract_explanation [] explanationPatterns ?content = Inr (strip_emphasis E)"
    unfolding ep using m t1 t2 r assms(6) by (simp add: Let_def)
  then show ?thesis by (simp add: explanation_of_def)
qed

lemma parseInt10_digits: "digits N \<Longrightarrow> parseInt10 (Some N) = Number (int (decimal N))"
proof -
  assume "digits N"
  then obtain d ds where N: "N = d # ds" "is_digit d" "list_all is_digit ds"
    by (cases N) (auto simp: digits_def)
  have 1: "dropWhile is_space N = N" using N space_not_digit by auto
  have 2: "d \<noteq> CHR ''-''" "d \<noteq> CHR ''+''" using N(2) by (auto simp: is_digit_def)
  have 3: "takeWhile is_digit N = N" using N by (simp add: list_all_iff)
  show ?thesis
    unfolding parseInt10_def by (simp add: 1 3 Let_def) (simp add: N 2)
qed


section \<open>A paragraph that begins with Slide\<close>

definition slide_paragraph_at :: "string \<Rightarrow> bool" where
  \<comment> \<open>for the statements: the text begins with a line break, then white space with
     one more line break in it, then \<open>Slide\<close> in any case\<close>
  "slide_paragraph_at s \<longleftrightarrow>
     (case s of
        [] \<Rightarrow> False
      | c # cs \<Rightarrow>
          c = CHR 0x0A \<and> CHR 0x0A \<in> set (takeWhile is_space cs) \<and>
          starts_with_ci ''Slide'' (dropWhile is_space cs))"

fun has_slide_paragraph :: "string \<Rightarrow> bool" where
  \<comment> \<open>for the statements: somewhere in the text a blank line is followed by \<open>Slide\<close>\<close>
  "has_slide_paragraph [] = False"
| "has_slide_paragraph (c # cs) = (slide_paragraph_at (c # cs) \<or> has_slide_paragraph cs)"

lemma run_Cat_some:
  "run (Cat a b) st \<noteq> [] \<Longrightarrow> \<exists>x \<in> set (run a st). run b x \<noteq> []"
  by auto

lemma dropWhile_drop_within:
  "j \<le> length (takeWhile p s) \<Longrightarrow> dropWhile p (drop j s) = dropWhile p s"
proof (induction s arbitrary: j)
  case Nil
  then show ?case by simp
next
  case (Cons c cs)
  then show ?case by (cases j) (auto split: if_splits)
qed

lemma drop_within_member:
  "j \<le> length (takeWhile p s) \<Longrightarrow> drop j s = c # r \<Longrightarrow> p c \<Longrightarrow> c \<in> set (takeWhile p s)"
proof (induction s arbitrary: j)
  case Nil
  then show ?case by simp
next
  case (Cons d ds)
  then show ?case by (cases j) (auto split: if_splits)
qed

lemma drop_within_end:
  "i \<le> length (takeWhile p z) \<Longrightarrow> drop i z = c # r \<Longrightarrow> \<not> p c \<Longrightarrow> drop i z = dropWhile p z"
proof (induction z arbitrary: i)
  case Nil
  then show ?case by simp
next
  case (Cons d ds)
  then show ?case by (cases i) (auto split: if_splits)
qed

lemma letter_s_not_space: "to_lower c = to_lower (CHR ''S'') \<Longrightarrow> \<not> is_space c"
  by (auto simp: is_space_def to_lower_def is_capital_def)

lemma run_trailing_slide:
  assumes "run trailing_slide (s, g) \<noteq> []"
  shows "slide_paragraph_at s"
proof -
  let ?W = "Cat (word_ci ''Slide'') (Cat (Star AnyChar) EndOfInput)"
  let ?B = "Cat newline (Cat (Star Space) ?W)"
  from assms obtain x where x: "x \<in> set (run newline (s, g))"
    "run (Cat (Star Space) ?B) x \<noteq> []"
    unfolding trailing_slide_def using run_Cat_some by blast
  from x(1) obtain cs where s: "s = CHR 0x0A # cs" and xx: "x = (cs, g)"
    by (cases s) (auto simp: newline_def split: if_splits)
  from x(2) obtain y where y: "y \<in> set (run (Star Space) (cs, g))" "run ?B y \<noteq> []"
    unfolding xx using run_Cat_some by blast
  from y(1) obtain j where j: "j \<le> length (takeWhile is_space cs)" and yy: "y = (drop j cs, g)"
    by (auto simp: greedy_member)
  from y(2) obtain v where v: "v \<in> set (run newline (drop j cs, g))"
    "run (Cat (Star Space) ?W) v \<noteq> []"
    unfolding yy using run_Cat_some by blast
  from v(1) obtain z where z: "drop j cs = CHR 0x0A # z" and vv: "v = (z, g)"
    by (cases "drop j cs") (auto simp: newline_def split: if_splits)
  from v(2) obtain w where w: "w \<in> set (run (Star Space) (z, g))" "run ?W w \<noteq> []"
    unfolding vv using run_Cat_some by blast
  from w(1) obtain i where i: "i \<le> length (takeWhile is_space z)" and ww: "w = (drop i z, g)"
    by (auto simp: greedy_member)
  from w(2) have sw: "starts_with_ci ''Slide'' (drop i z)"
    unfolding ww by (simp add: run_label del: run.simps split: if_splits)
  then obtain c r where c: "drop i z = c # r" "to_lower c = to_lower (CHR ''S'')"
    by (cases "drop i z") auto
  then have "\<not> is_space c" using letter_s_not_space by blast
  with i c(1) have "drop i z = dropWhile is_space z" by (rule drop_within_end)
  moreover have "dropWhile is_space cs = dropWhile is_space z"
    using dropWhile_drop_within [OF j] z by (simp add: newline_is_space)
  ultimately have 1: "starts_with_ci ''Slide'' (dropWhile is_space cs)" using sw by simp
  have 2: "CHR 0x0A \<in> set (takeWhile is_space cs)"
    using j z newline_is_space by (rule drop_within_member)
  from 1 2 s show ?thesis by (simp add: slide_paragraph_at_def)
qed

lemma search_found_somewhere:
  "search re pre s = Some m \<Longrightarrow> \<exists>k. run re (drop k s, None) \<noteq> []"
proof (induction s arbitrary: pre)
  case Nil
  then show ?case by (auto split: list.splits)
next
  case (Cons c cs)
  show ?case
  proof (cases "run re (c # cs, None)")
    case Nil
    with Cons.prems have "search re (pre @ [c]) cs = Some m" by simp
    then obtain k where "run re (drop k cs, None) \<noteq> []" using Cons.IH by blast
    then have "run re (drop (Suc k) (c # cs), None) \<noteq> []" by simp
    then show ?thesis by blast
  next
    case (Cons x xs)
    then have "run re (drop 0 (c # cs), None) \<noteq> []" by simp
    then show ?thesis by blast
  qed
qed

lemma slide_paragraph_suffix: "slide_paragraph_at (drop k s) \<Longrightarrow> has_slide_paragraph s"
proof (induction s arbitrary: k)
  case Nil
  then show ?case by (simp add: slide_paragraph_at_def)
next
  case (Cons c cs)
  then show ?case by (cases k) auto
qed

lemma no_slide_paragraph: "\<not> has_slide_paragraph E \<Longrightarrow> match E trailing_slide = None"
proof (rule ccontr)
  assume n: "\<not> has_slide_paragraph E" and "match E trailing_slide \<noteq> None"
  then obtain m where "search trailing_slide [] E = Some m" by (auto simp: match_def)
  then obtain k where "run trailing_slide (drop k E, None) \<noteq> []"
    using search_found_somewhere by blast
  then have "slide_paragraph_at (drop k E)" by (rule run_trailing_slide)
  then show False using n slide_paragraph_suffix by blast
qed


section \<open>Two well-formed blocks\<close>

definition well_formed_number :: "string \<Rightarrow> bool" where
  \<comment> \<open>a run of digits for a number that a double holds exactly\<close>
  "well_formed_number N \<longleftrightarrow> digits N \<and> decimal N \<le> 2 ^ 53"

definition plain_field :: "string \<Rightarrow> bool" where
  \<comment> \<open>a text without white space around it, without a slide marker and without the
     label of a heading, and not empty once the emphasis markers are stripped\<close>
  "plain_field t \<longleftrightarrow>
     t \<noteq> [] \<and> \<not> is_space (hd t) \<and> \<not> is_space (last t) \<and>
     \<not> appears_ci ''Heading:'' t \<and> \<not> has_marker t \<and> strip_emphasis t \<noteq> []"

definition well_formed_heading :: "string \<Rightarrow> bool" where
  "well_formed_heading H \<longleftrightarrow>
     plain_field H \<and> CHR 0x0A \<notin> set H \<and> \<not> appears_ci ''Explanation:'' H"

definition well_formed_explanation :: "string \<Rightarrow> bool" where
  "well_formed_explanation E \<longleftrightarrow> plain_field E \<and> \<not> has_slide_paragraph E"

lemma block_records_well_formed:
  assumes "well_formed_number N" "well_formed_heading H" "well_formed_explanation E"
    "line_end tail"
  shows "block_records (Some N, block_content H E tail) =
     [\<lparr>slideNumber = Number (int (decimal N)), heading = strip_emphasis H,
       explanation = strip_emphasis E\<rparr>]"
proof -
  have h: "heading_of (block_content H E tail) = strip_emphasis H"
    using assms(2,3,4)
    by (intro heading_of_block)
       (simp_all add: well_formed_heading_def well_formed_explanation_def plain_field_def)
  have e: "explanation_of (block_content H E tail) = strip_emphasis E"
    using assms(2,3,4) no_slide_paragraph [of E]
    by (intro explanation_of_block)
       (simp_all add: well_formed_heading_def well_formed_explanation_def plain_field_def)
  have n: "parseInt10 (Some N) = Number (int (decimal N))"
    using assms(1) by (simp add: well_formed_number_def parseInt10_digits)
  have "strip_emphasis H \<noteq> []" "strip_emphasis E \<noteq> []"
    using assms(2,3)
    by (simp_all add: well_formed_heading_def well_formed_explanation_def plain_field_def)
  then show ?thesis by (simp add: block_records_def h e n)
qed

text \<open>
  C4, as the code has it.  Take a text of exactly two blocks, each \<open>Slide N\<close>,
  \<open>Heading: H\<close> and \<open>Explanation: E\<close> on lines of their own, where every \<open>N\<close> is a
  run of digits for a number up to \<open>2 ^ 53\<close>, every \<open>H\<close> is one line and every \<open>E\<close> a
  text, both without white space around them, without a slide marker and without the
  label \<open>Heading:\<close>, \<open>H\<close> also without the label \<open>Explanation:\<close>, \<open>E\<close> without a blank
  line followed by \<open>Slide\<close>, and neither empty once the emphasis markers are stripped.
  The parser returns exactly two records, in the order of the text; each carries the
  number captured from its own marker, whatever the other number is, and its heading
  and explanation as written, stripped of the emphasis markers.
\<close>

theorem two_well_formed_blocks:
  assumes "well_formed_number N1" "well_formed_heading H1" "well_formed_explanation E1"
    and "well_formed_number N2" "well_formed_heading H2" "well_formed_explanation E2"
  shows "parseSlideContent (slide_block_text N1 H1 E1 @ CHR 0x0A # slide_block_text N2 H2 E2) =
     Inr [\<lparr>slideNumber = Number (int (decimal N1)), heading = strip_emphasis H1,
            explanation = strip_emphasis E1\<rparr>,
          \<lparr>slideNumber = Number (int (decimal N2)), heading = strip_emphasis H2,
            explanation = strip_emphasis E2\<rparr>]"
proof -
  have m: "\<not> has_marker H1" "\<not> has_marker E1" "\<not> has_marker H2" "\<not> has_marker E2"
    using assms
    by (simp_all add: well_formed_heading_def well_formed_explanation_def plain_field_def)
  have d: "digits N1" "digits N2" using assms(1,4) by (simp_all add: well_formed_number_def)
  have "split (slide_block_text N1 H1 E1 @ CHR 0x0A # slide_block_text N2 H2 E2) slide_marker =
     [Some [], Some N1, Some (block_content H1 E1 [CHR 0x0A]),
      Some N2, Some (block_content H2 E2 [])]"
    using d m by (intro split_two_blocks)
  then have "parseSlideContent (slide_block_text N1 H1 E1 @ CHR 0x0A # slide_block_text N2 H2 E2) =
      Inr (block_records (Some N1, block_content H1 E1 [CHR 0x0A]) @
           block_records (Some N2, block_content H2 E2 []))"
    by (simp add: parse_records or_empty_def)
  moreover have "block_records (Some N1, block_content H1 E1 [CHR 0x0A]) =
     [\<lparr>slideNumber = Number (int (decimal N1)), heading = strip_emphasis H1,
       explanation = strip_emphasis E1\<rparr>]"
    using assms(1,2,3) by (rule block_records_well_formed) (simp add: line_end_def)
  moreover have "block_records (Some N2, block_content H2 E2 []) =
     [\<lparr>slideNumber = Number (int (decimal N2)), heading = strip_emphasis H2,
       explanation = strip_emphasis E2\<rparr>]"
    using assms(4,5,6) by (rule block_records_well_formed) (simp add: line_end_def)
  ultimately show ?thesis by simp
qed

theorem two_well_formed_blocks_witness:
  "parseSlideContent
     (slide_block_text ''2'' ''**Dogs**'' (''Loyal'' @ CHR 0x0A # ''and __kind__.'') @
      CHR 0x0A # slide_block_text ''2'' ''Cats'' ''Independent.'') =
   Inr [\<lparr>slideNumber = Number 2, heading = ''Dogs'',
          explanation = ''Loyal'' @ CHR 0x0A # ''and kind.''\<rparr>,
        \<lparr>slideNumber = Number 2, heading = ''Cats'', explanation = ''Independent.''\<rparr>]"
proof -
  have n: "well_formed_number ''2''"
    by (simp add: well_formed_number_def digits_def is_digit_def decimal_def digit_value_def)
  have s: "strip_emphasis ''**Dogs**'' = ''Dogs''" "strip_emphasis ''Cats'' = ''Cats''"
    "strip_emphasis (''Loyal'' @ CHR 0x0A # ''and __kind__.'') = ''Loyal'' @ CHR 0x0A # ''and kind.''"
    "strip_emphasis ''Independent.'' = ''Independent.''"
    by (simp_all add: strip_emphasis_tokens)
  note s = s [simplified]
  have h: "well_formed_heading ''**Dogs**''" "well_formed_heading ''Cats''"
    by (simp_all add: well_formed_heading_def plain_field_def s is_space_def marker_at_def
          to_lower_def is_capital_def)
  have e: "well_formed_explanation (''Loyal'' @ CHR 0x0A # ''and __kind__.'')"
    "well_formed_explanation ''Independent.''"
    by (simp_all add: well_formed_explanation_def plain_field_def s is_space_def marker_at_def
          slide_paragraph_at_def to_lower_def is_capital_def)
  have d: "decimal ''2'' = 2" by (simp add: decimal_def digit_value_def)
  show ?thesis
    using two_well_formed_blocks [OF n h(1) e(1) n h(2) e(2)] by (simp add: s d)
qed

text \<open>
  C4 as the specification words it has the explanation returned as written.  An
  explanation whose second paragraph begins with the word \<open>Slides\<close> is cut at the
  blank line: the first record below has lost \<open>Slides help.\<close>
\<close>

theorem paragraph_cut_counterexample:
  "parseSlideContent
     (slide_block_text ''1'' ''Cats''
        (''Independent.'' @ CHR 0x0A # CHR 0x0A # ''Slides help.'') @
      CHR 0x0A # slide_block_text ''2'' ''Dogs'' ''Loyal.'') =
   Inr [\<lparr>slideNumber = Number 1, heading = ''Cats'', explanation = ''Independent.''\<rparr>,
        \<lparr>slideNumber = Number 2, heading = ''Dogs'', explanation = ''Loyal.''\<rparr>]"
  by code_simp

end
